theory Spec2Isabelle
  imports Complex_Main "HOL-Library.Word"
begin

section \<open>Machine integers and checked element access\<close>

text \<open>
  The C++ sources work on \<open>std::string\<close> and \<open>std::vector<int>\<close>. Everything the
  sources declare \<open>int\<close> that holds an element value, a sum of element values, the
  window size \<open>k\<close>, a threshold, a length (\<open>n\<close>, \<open>m\<close>) or an index (\<open>i\<close>, \<open>r\<close>,
  \<open>left\<close>) is a 32-bit word: addition, subtraction and multiplication wrap around, and
  comparisons read the word as two's complement. Signed overflow is undefined in C++;
  the model gives it the two's complement result. \<open>long long\<close> is a 64-bit word.
  \<open>int n = v.size()\<close> keeps the low 32 bits of the length. The \<open>ans\<close> of
  \<open>numOfSubarrays\<close>, which counts windows, is a 32-bit word as well. The counters of
  the elements of one window (\<open>cntW\<close>, \<open>yuanyin\<close>, the \<open>ans\<close> of \<open>maxVowels\<close> and
  of \<open>minimumRecolors\<close>, the entries of the frequency table) are HOL integers: a window
  has \<open>k\<close> elements, and \<open>k\<close> is a value of an \<open>int\<close>.

  Every element access goes through \<open>index_at\<close>, which is \<open>None\<close> outside
  \<open>0 .. n - 1\<close>; a function returns \<open>None\<close> as soon as one of its accesses is out
  of bounds. An \<open>int\<close> used as an index is converted to the unsigned \<open>size_t\<close>, so a
  negative index is far beyond the end. (A \<open>std::string\<close> may also be read at
  position \<open>n\<close>, where it holds the terminator; the model is stricter there and counts
  that read as out of bounds.)
\<close>

type_synonym int32 = "32 word"
type_synonym int64 = "64 word"

definition index_at :: "'a list \<Rightarrow> int \<Rightarrow> 'a option" where
  "index_at xs i = (if 0 \<le> i \<and> i < int (length xs) then Some (xs ! nat i) else None)"

text \<open>The loop test \<open>i < v.size()\<close> compares an \<open>int\<close> with a \<open>size_t\<close>: \<open>i\<close> is
  converted to 64 bits unsigned. A negative \<open>i\<close> becomes a value of at least
  \<open>2 ^ 64 - 2 ^ 31\<close>, which is more than any container holds, and the test fails.\<close>

definition lt_size :: "int32 \<Rightarrow> 'a list \<Rightarrow> bool" where
  "lt_size i xs \<longleftrightarrow> 0 \<le> sint i \<and> sint i < int (length xs)"

text \<open>\<open>int n = v.size()\<close>.\<close>

definition size_as_int :: "'a list \<Rightarrow> int32" where
  "size_as_int xs = word_of_nat (length xs)"

text \<open>\<open>std::min(a, b)\<close> is \<open>(b < a) ? b : a\<close> and \<open>std::max(a, b)\<close> is
  \<open>(a < b) ? b : a\<close>, with the signed comparison of the operand type.\<close>

definition smin :: "'a::len word \<Rightarrow> 'a word \<Rightarrow> 'a word" where
  "smin a b = (if sint b < sint a then b else a)"

definition smax :: "'a::len word \<Rightarrow> 'a word \<Rightarrow> 'a word" where
  "smax a b = (if sint a < sint b then b else a)"

text \<open>\<open>INT_MIN\<close>.\<close>

definition INT_MIN :: int32 where
  "INT_MIN = word_of_int (- (2 ^ 31))"

section \<open>2379: minimumRecolors\<close>

text \<open>The first loop, \<open>for (int i = 0; i < k; i++) if (blocks[i] == 'W') cntW++;\<close>.\<close>

function minimumRecolors_first :: "string \<Rightarrow> int32 \<Rightarrow> int32 \<Rightarrow> int \<Rightarrow> int option" where
  "minimumRecolors_first blocks k i cntW =
     (if sint i < sint k then
        (case index_at blocks (sint i) of
           None \<Rightarrow> None
         | Some c \<Rightarrow>
             minimumRecolors_first blocks k (i + 1)
               (if c = CHR ''W'' then cntW + 1 else cntW))
      else Some cntW)"
  by pat_completeness auto
termination
proof (relation "measure (\<lambda>(blocks, k, i, cntW). nat (sint k - sint i))", goal_cases)
  case 1
  show ?case by simp
next
  case (2 blocks k i)
  have "sint i < 2 ^ 31 - 1" using 2(1) sint_lt [of k] by simp
  moreover have "- (2 ^ 31) \<le> sint i" using sint_ge [of i] by simp
  ultimately have "sint (i + 1) = sint i + 1"
    by (simp add: sint_word_ariths signed_take_bit_int_eq_self)
  then show ?case using 2(1) by simp
qed
declare minimumRecolors_first.simps [simp del]

text \<open>The second loop, \<open>for (int r = k; r < n; r++)\<close>: admit \<open>blocks[r]\<close>, evict
  \<open>blocks[r - k]\<close>, take the minimum.\<close>

function minimumRecolors_slide ::
  "string \<Rightarrow> int32 \<Rightarrow> int32 \<Rightarrow> int32 \<Rightarrow> int \<Rightarrow> int \<Rightarrow> int option" where
  "minimumRecolors_slide blocks k n r cntW ans =
     (if sint r < sint n then
        (case index_at blocks (sint r) of
           None \<Rightarrow> None
         | Some c \<Rightarrow>
             (let cntW1 = (if c = CHR ''W'' then cntW + 1 else cntW)
              in case index_at blocks (sint (r - k)) of
                   None \<Rightarrow> None
                 | Some d \<Rightarrow>
                     (let cntW2 = (if d = CHR ''W'' then cntW1 - 1 else cntW1)
                      in minimumRecolors_slide blocks k n (r + 1) cntW2 (min ans cntW2))))
      else Some ans)"
  by pat_completeness auto
termination
proof (relation "measure (\<lambda>(blocks, k, n, r, cntW, ans). nat (sint n - sint r))", goal_cases)
  case 1
  show ?case by simp
next
  case (2 blocks k n r)
  have "sint r < 2 ^ 31 - 1" using 2(1) sint_lt [of n] by simp
  moreover have "- (2 ^ 31) \<le> sint r" using sint_ge [of r] by simp
  ultimately have "sint (r + 1) = sint r + 1"
    by (simp add: sint_word_ariths signed_take_bit_int_eq_self)
  then show ?case using 2(1) by simp
qed
declare minimumRecolors_slide.simps [simp del]

definition minimumRecolors :: "string \<Rightarrow> int32 \<Rightarrow> int option" where
  "minimumRecolors blocks k =
     (let n = size_as_int blocks
      in case minimumRecolors_first blocks k 0 0 of
           None \<Rightarrow> None
         | Some cntW \<Rightarrow> minimumRecolors_slide blocks k n k cntW cntW)"

section \<open>1456: maxVowels\<close>

definition is_vowel :: "char \<Rightarrow> bool" where
  "is_vowel c \<longleftrightarrow>
     c = CHR ''a'' \<or> c = CHR ''e'' \<or> c = CHR ''i'' \<or> c = CHR ''o'' \<or> c = CHR ''u''"

function maxVowels_loop :: "string \<Rightarrow> int32 \<Rightarrow> int32 \<Rightarrow> int \<Rightarrow> int \<Rightarrow> int option" where
  "maxVowels_loop s k i ans yuanyin =
     (if lt_size i s then
        (case index_at s (sint i) of
           None \<Rightarrow> None
         | Some c \<Rightarrow>
             (let yuanyin1 = (if is_vowel c then yuanyin + 1 else yuanyin);
                  left = i - k + 1
              in if sint left < 0 then maxVowels_loop s k (i + 1) ans yuanyin1
                 else
                   (let ans1 = max ans yuanyin1
                    in if ans1 = sint k then Some ans1
                       else
                         (case index_at s (sint left) of
                            None \<Rightarrow> None
                          | Some d \<Rightarrow>
                              maxVowels_loop s k (i + 1) ans1
                                (if is_vowel d then yuanyin1 - 1 else yuanyin1)))))
      else Some ans)"
  by pat_completeness auto
termination
proof (relation "measure (\<lambda>(s, k, i, ans, yuanyin). if 0 \<le> sint i then nat (2 ^ 31 - sint i) else 0)",
    goal_cases)
  case 1
  show ?case by simp
next
  case (2 s k i)
  have lt: "sint i < 2 ^ 31" using sint_lt [of i] by simp
  have "sint (i + 1) = sint i + 1 \<or> sint (i + 1) < 0"
  proof (cases "sint i < 2 ^ 31 - 1")
    case True
    moreover have "- (2 ^ 31) \<le> sint i" using sint_ge [of i] by simp
    ultimately show ?thesis by (simp add: sint_word_ariths signed_take_bit_int_eq_self)
  next
    case False
    with lt have "sint i = 2147483647" by simp
    then have "word_of_int (sint i) = (2147483647 :: int32)" by simp
    then have "i = 2147483647" by simp
    then show ?thesis by simp
  qed
  then show ?case using 2(1) lt by (auto simp: lt_size_def)
next
  case (3 s k i)
  have lt: "sint i < 2 ^ 31" using sint_lt [of i] by simp
  have "sint (i + 1) = sint i + 1 \<or> sint (i + 1) < 0"
  proof (cases "sint i < 2 ^ 31 - 1")
    case True
    moreover have "- (2 ^ 31) \<le> sint i" using sint_ge [of i] by simp
    ultimately show ?thesis by (simp add: sint_word_ariths signed_take_bit_int_eq_self)
  next
    case False
    with lt have "sint i = 2147483647" by simp
    then have "word_of_int (sint i) = (2147483647 :: int32)" by simp
    then have "i = 2147483647" by simp
    then show ?thesis by simp
  qed
  then show ?case using 3(1) lt by (auto simp: lt_size_def)
qed
declare maxVowels_loop.simps [simp del]

definition maxVowels :: "string \<Rightarrow> int32 \<Rightarrow> int option" where
  "maxVowels s k = maxVowels_loop s k 0 0 0"

section \<open>2379, the copy under the directory \<open>1-\<close>\<close>

text \<open>The repository holds the same function a second time, in a file that differs
  from the first by its header comment only. It is translated on its own.\<close>

function minimumRecolors_dir1_first :: "string \<Rightarrow> int32 \<Rightarrow> int32 \<Rightarrow> int \<Rightarrow> int option" where
  "minimumRecolors_dir1_first blocks k i cntW =
     (if sint i < sint k then
        (case index_at blocks (sint i) of
           None \<Rightarrow> None
         | Some c \<Rightarrow>
             minimumRecolors_dir1_first blocks k (i + 1)
               (if c = CHR ''W'' then cntW + 1 else cntW))
      else Some cntW)"
  by pat_completeness auto
termination
proof (relation "measure (\<lambda>(blocks, k, i, cntW). nat (sint k - sint i))", goal_cases)
  case 1
  show ?case by simp
next
  case (2 blocks k i)
  have "sint i < 2 ^ 31 - 1" using 2(1) sint_lt [of k] by simp
  moreover have "- (2 ^ 31) \<le> sint i" using sint_ge [of i] by simp
  ultimately have "sint (i + 1) = sint i + 1"
    by (simp add: sint_word_ariths signed_take_bit_int_eq_self)
  then show ?case using 2(1) by simp
qed
declare minimumRecolors_dir1_first.simps [simp del]

text \<open>The second loop, \<open>for (int r = k; r < n; r++)\<close>: admit \<open>blocks[r]\<close>, evict
  \<open>blocks[r - k]\<close>, take the minimum.\<close>

function minimumRecolors_dir1_slide ::
  "string \<Rightarrow> int32 \<Rightarrow> int32 \<Rightarrow> int32 \<Rightarrow> int \<Rightarrow> int \<Rightarrow> int option" where
  "minimumRecolors_dir1_slide blocks k n r cntW ans =
     (if sint r < sint n then
        (case index_at blocks (sint r) of
           None \<Rightarrow> None
         | Some c \<Rightarrow>
             (let cntW1 = (if c = CHR ''W'' then cntW + 1 else cntW)
              in case index_at blocks (sint (r - k)) of
                   None \<Rightarrow> None
                 | Some d \<Rightarrow>
                     (let cntW2 = (if d = CHR ''W'' then cntW1 - 1 else cntW1)
                      in minimumRecolors_dir1_slide blocks k n (r + 1) cntW2 (min ans cntW2))))
      else Some ans)"
  by pat_completeness auto
termination
proof (relation "measure (\<lambda>(blocks, k, n, r, cntW, ans). nat (sint n - sint r))", goal_cases)
  case 1
  show ?case by simp
next
  case (2 blocks k n r)
  have "sint r < 2 ^ 31 - 1" using 2(1) sint_lt [of n] by simp
  moreover have "- (2 ^ 31) \<le> sint r" using sint_ge [of r] by simp
  ultimately have "sint (r + 1) = sint r + 1"
    by (simp add: sint_word_ariths signed_take_bit_int_eq_self)
  then show ?case using 2(1) by simp
qed
declare minimumRecolors_dir1_slide.simps [simp del]

definition minimumRecolors_dir1 :: "string \<Rightarrow> int32 \<Rightarrow> int option" where
  "minimumRecolors_dir1 blocks k =
     (let n = size_as_int blocks
      in case minimumRecolors_dir1_first blocks k 0 0 of
           None \<Rightarrow> None
         | Some cntW \<Rightarrow> minimumRecolors_dir1_slide blocks k n k cntW cntW)"

section \<open>1343: numOfSubarrays\<close>

text \<open>\<open>ans\<close>, \<open>s\<close> and \<open>k * threshold\<close> are \<open>int\<close>; \<open>ans += s >= k * threshold\<close>
  adds the comparison's truth value.\<close>

function numOfSubarrays_loop ::
  "int32 list \<Rightarrow> int32 \<Rightarrow> int32 \<Rightarrow> int32 \<Rightarrow> int32 \<Rightarrow> int32 \<Rightarrow> int32 option" where
  "numOfSubarrays_loop arr k threshold i ans s =
     (if lt_size i arr then
        (case index_at arr (sint i) of
           None \<Rightarrow> None
         | Some x \<Rightarrow>
             (let s1 = s + x
              in if sint i < sint (k - 1) then numOfSubarrays_loop arr k threshold (i + 1) ans s1
                 else
                   (let ans1 = ans + (if sint (k * threshold) \<le> sint s1 then 1 else 0)
                    in case index_at arr (sint (i - k + 1)) of
                         None \<Rightarrow> None
                       | Some y \<Rightarrow>
                           numOfSubarrays_loop arr k threshold (i + 1) ans1 (s1 - y))))
      else Some ans)"
  by pat_completeness auto
termination
proof (relation "measure (\<lambda>(arr, k, threshold, i, ans, s). if 0 \<le> sint i then nat (2 ^ 31 - sint i) else 0)",
    goal_cases)
  case 1
  show ?case by simp
next
  case (2 arr k threshold i)
  have lt: "sint i < 2 ^ 31" using sint_lt [of i] by simp
  have "sint (i + 1) = sint i + 1 \<or> sint (i + 1) < 0"
  proof (cases "sint i < 2 ^ 31 - 1")
    case True
    moreover have "- (2 ^ 31) \<le> sint i" using sint_ge [of i] by simp
    ultimately show ?thesis by (simp add: sint_word_ariths signed_take_bit_int_eq_self)
  next
    case False
    with lt have "sint i = 2147483647" by simp
    then have "word_of_int (sint i) = (2147483647 :: int32)" by simp
    then have "i = 2147483647" by simp
    then show ?thesis by simp
  qed
  then show ?case using 2(1) lt by (auto simp: lt_size_def)
next
  case (3 arr k threshold i)
  have lt: "sint i < 2 ^ 31" using sint_lt [of i] by simp
  have "sint (i + 1) = sint i + 1 \<or> sint (i + 1) < 0"
  proof (cases "sint i < 2 ^ 31 - 1")
    case True
    moreover have "- (2 ^ 31) \<le> sint i" using sint_ge [of i] by simp
    ultimately show ?thesis by (simp add: sint_word_ariths signed_take_bit_int_eq_self)
  next
    case False
    with lt have "sint i = 2147483647" by simp
    then have "word_of_int (sint i) = (2147483647 :: int32)" by simp
    then have "i = 2147483647" by simp
    then show ?thesis by simp
  qed
  then show ?case using 3(1) lt by (auto simp: lt_size_def)
qed
declare numOfSubarrays_loop.simps [simp del]

definition numOfSubarrays :: "int32 list \<Rightarrow> int32 \<Rightarrow> int32 \<Rightarrow> int32 option" where
  "numOfSubarrays arr k threshold = numOfSubarrays_loop arr k threshold 0 0 0"

section \<open>1423: maxScore\<close>

text \<open>\<open>std::reduce(v.begin(), v.begin() + m)\<close> adds the first \<open>m\<close> elements to
  \<open>int()\<close>, which is 0; the range must lie inside the vector.\<close>

definition reduce :: "int32 list \<Rightarrow> int \<Rightarrow> int32 option" where
  "reduce v m = (if 0 \<le> m \<and> m \<le> int (length v) then Some (sum_list (take (nat m) v)) else None)"

function maxScore_loop ::
  "int32 list \<Rightarrow> int32 \<Rightarrow> int32 \<Rightarrow> int32 \<Rightarrow> int32 \<Rightarrow> int32 \<Rightarrow> int32 option" where
  "maxScore_loop cardPoints m n i s min_s =
     (if sint i < sint n then
        (case index_at cardPoints (sint i) of
           None \<Rightarrow> None
         | Some a \<Rightarrow>
             (case index_at cardPoints (sint (i - m)) of
                None \<Rightarrow> None
              | Some b \<Rightarrow>
                  (let s1 = s + (a - b)
                   in maxScore_loop cardPoints m n (i + 1) s1 (smin min_s s1))))
      else Some min_s)"
  by pat_completeness auto
termination
proof (relation "measure (\<lambda>(cardPoints, m, n, i, s, min_s). nat (sint n - sint i))", goal_cases)
  case 1
  show ?case by simp
next
  case (2 cardPoints m n i)
  have "sint i < 2 ^ 31 - 1" using 2(1) sint_lt [of n] by simp
  moreover have "- (2 ^ 31) \<le> sint i" using sint_ge [of i] by simp
  ultimately have "sint (i + 1) = sint i + 1"
    by (simp add: sint_word_ariths signed_take_bit_int_eq_self)
  then show ?case using 2(1) by simp
qed
declare maxScore_loop.simps [simp del]

text \<open>\<open>reduce(cardPoints.begin(), cardPoints.end())\<close> runs over the whole vector.\<close>

definition maxScore :: "int32 list \<Rightarrow> int32 \<Rightarrow> int32 option" where
  "maxScore cardPoints k =
     (let n = size_as_int cardPoints;
          m = n - k
      in case reduce cardPoints (sint m) of
           None \<Rightarrow> None
         | Some s \<Rightarrow>
             (case maxScore_loop cardPoints m n m s s of
                None \<Rightarrow> None
              | Some min_s \<Rightarrow>
                  (case reduce cardPoints (int (length cardPoints)) of
                     None \<Rightarrow> None
                   | Some all_s \<Rightarrow> Some (all_s - min_s))))"

section \<open>2461: maximumSubarraySum\<close>

text \<open>The frequency table \<open>unordered_map<int, int> cnt\<close> is a map from element
  values to counts. \<open>cnt[x]++\<close> inserts a missing key with count 0 first;
  \<open>if (--cnt[out] == 0) cnt.erase(out)\<close> decrements and drops a key that reaches 0;
  \<open>cnt.size()\<close> is the number of keys.\<close>

type_synonym freq = "int32 \<rightharpoonup> int"

definition cnt_incr :: "freq \<Rightarrow> int32 \<Rightarrow> freq" where
  "cnt_incr cnt x = cnt(x \<mapsto> (case cnt x of None \<Rightarrow> 0 | Some c \<Rightarrow> c) + 1)"

definition cnt_decr_erase :: "freq \<Rightarrow> int32 \<Rightarrow> freq" where
  "cnt_decr_erase cnt out =
     (let c = (case cnt out of None \<Rightarrow> 0 | Some c \<Rightarrow> c) - 1
      in if c = 0 then cnt(out := None) else cnt(out \<mapsto> c))"

definition cnt_size :: "freq \<Rightarrow> int" where
  "cnt_size cnt = int (card (dom cnt))"

text \<open>\<open>s\<close> and \<open>ans\<close> are \<open>long long\<close>; \<open>s += nums[i]\<close> sign-extends the element.\<close>

function maximumSubarraySum_loop ::
  "int32 list \<Rightarrow> int32 \<Rightarrow> int32 \<Rightarrow> int64 \<Rightarrow> int64 \<Rightarrow> freq \<Rightarrow> int64 option" where
  "maximumSubarraySum_loop nums k i ans s cnt =
     (if lt_size i nums then
        (case index_at nums (sint i) of
           None \<Rightarrow> None
         | Some x \<Rightarrow>
             (let s1 = s + scast x;
                  cnt1 = cnt_incr cnt x;
                  left = i - k + 1
              in if sint left < 0 then maximumSubarraySum_loop nums k (i + 1) ans s1 cnt1
                 else
                   (let ans1 = (if cnt_size cnt1 = sint k then smax ans s1 else ans)
                    in case index_at nums (sint left) of
                         None \<Rightarrow> None
                       | Some out \<Rightarrow>
                           maximumSubarraySum_loop nums k (i + 1) ans1 (s1 - scast out)
                             (cnt_decr_erase cnt1 out))))
      else Some ans)"
  by pat_completeness auto
termination
proof (relation "measure (\<lambda>(nums, k, i, ans, s, cnt). if 0 \<le> sint i then nat (2 ^ 31 - sint i) else 0)",
    goal_cases)
  case 1
  show ?case by simp
next
  case (2 nums k i)
  have lt: "sint i < 2 ^ 31" using sint_lt [of i] by simp
  have "sint (i + 1) = sint i + 1 \<or> sint (i + 1) < 0"
  proof (cases "sint i < 2 ^ 31 - 1")
    case True
    moreover have "- (2 ^ 31) \<le> sint i" using sint_ge [of i] by simp
    ultimately show ?thesis by (simp add: sint_word_ariths signed_take_bit_int_eq_self)
  next
    case False
    with lt have "sint i = 2147483647" by simp
    then have "word_of_int (sint i) = (2147483647 :: int32)" by simp
    then have "i = 2147483647" by simp
    then show ?thesis by simp
  qed
  then show ?case using 2(1) lt by (auto simp: lt_size_def)
next
  case (3 nums k i)
  have lt: "sint i < 2 ^ 31" using sint_lt [of i] by simp
  have "sint (i + 1) = sint i + 1 \<or> sint (i + 1) < 0"
  proof (cases "sint i < 2 ^ 31 - 1")
    case True
    moreover have "- (2 ^ 31) \<le> sint i" using sint_ge [of i] by simp
    ultimately show ?thesis by (simp add: sint_word_ariths signed_take_bit_int_eq_self)
  next
    case False
    with lt have "sint i = 2147483647" by simp
    then have "word_of_int (sint i) = (2147483647 :: int32)" by simp
    then have "i = 2147483647" by simp
    then show ?thesis by simp
  qed
  then show ?case using 3(1) lt by (auto simp: lt_size_def)
qed
declare maximumSubarraySum_loop.simps [simp del]

definition maximumSubarraySum :: "int32 list \<Rightarrow> int32 \<Rightarrow> int64 option" where
  "maximumSubarraySum nums k = maximumSubarraySum_loop nums k 0 0 0 Map.empty"

section \<open>643: findMaxAverage\<close>

function findMaxAverage_loop ::
  "int32 list \<Rightarrow> int32 \<Rightarrow> int32 \<Rightarrow> int32 \<Rightarrow> int32 \<Rightarrow> int32 option" where
  "findMaxAverage_loop nums k i max_s s =
     (if lt_size i nums then
        (case index_at nums (sint i) of
           None \<Rightarrow> None
         | Some x \<Rightarrow>
             (let s1 = s + x
              in if sint i < sint (k - 1) then findMaxAverage_loop nums k (i + 1) max_s s1
                 else
                   (let max_s1 = smax max_s s1
                    in case index_at nums (sint (i - k + 1)) of
                         None \<Rightarrow> None
                       | Some y \<Rightarrow> findMaxAverage_loop nums k (i + 1) max_s1 (s1 - y))))
      else Some max_s)"
  by pat_completeness auto
termination
proof (relation "measure (\<lambda>(nums, k, i, max_s, s). if 0 \<le> sint i then nat (2 ^ 31 - sint i) else 0)",
    goal_cases)
  case 1
  show ?case by simp
next
  case (2 nums k i)
  have lt: "sint i < 2 ^ 31" using sint_lt [of i] by simp
  have "sint (i + 1) = sint i + 1 \<or> sint (i + 1) < 0"
  proof (cases "sint i < 2 ^ 31 - 1")
    case True
    moreover have "- (2 ^ 31) \<le> sint i" using sint_ge [of i] by simp
    ultimately show ?thesis by (simp add: sint_word_ariths signed_take_bit_int_eq_self)
  next
    case False
    with lt have "sint i = 2147483647" by simp
    then have "word_of_int (sint i) = (2147483647 :: int32)" by simp
    then have "i = 2147483647" by simp
    then show ?thesis by simp
  qed
  then show ?case using 2(1) lt by (auto simp: lt_size_def)
next
  case (3 nums k i)
  have lt: "sint i < 2 ^ 31" using sint_lt [of i] by simp
  have "sint (i + 1) = sint i + 1 \<or> sint (i + 1) < 0"
  proof (cases "sint i < 2 ^ 31 - 1")
    case True
    moreover have "- (2 ^ 31) \<le> sint i" using sint_ge [of i] by simp
    ultimately show ?thesis by (simp add: sint_word_ariths signed_take_bit_int_eq_self)
  next
    case False
    with lt have "sint i = 2147483647" by simp
    then have "word_of_int (sint i) = (2147483647 :: int32)" by simp
    then have "i = 2147483647" by simp
    then show ?thesis by simp
  qed
  then show ?case using 3(1) lt by (auto simp: lt_size_def)
qed
declare findMaxAverage_loop.simps [simp del]

text \<open>The function ends with \<open>return (double) max_s / k\<close>: both operands are converted
  to \<open>double\<close> (exactly, a 32-bit integer fits the 53-bit significand) and divided by the
  floating-point unit. That division is the parameter \<open>fdiv\<close>: it receives the two
  integer values and yields the quotient as whatever represents a \<open>double\<close>. Every
  statement below holds for every \<open>fdiv\<close>, the IEEE 754 division included.\<close>

definition findMaxAverage :: "(int \<Rightarrow> int \<Rightarrow> 'd) \<Rightarrow> int32 list \<Rightarrow> int32 \<Rightarrow> 'd option" where
  "findMaxAverage fdiv nums k =
     (case findMaxAverage_loop nums k 0 INT_MIN 0 of
        None \<Rightarrow> None
      | Some max_s \<Rightarrow> Some (fdiv (sint max_s) (sint k)))"

text \<open>The quotient without rounding, for the values that a \<open>double\<close> holds exactly.\<close>

definition exact_div :: "int \<Rightarrow> int \<Rightarrow> real" where
  "exact_div a b = of_int a / of_int b"

section \<open>Windows and their aggregates, recomputed afresh\<close>

text \<open>\<open>window xs k j\<close> is the contiguous block of \<open>k\<close> elements of \<open>xs\<close> that starts at
  index \<open>j\<close>; it has length \<open>k\<close> exactly when \<open>j + k \<le> length xs\<close>. \<open>windows xs k\<close>
  lists the \<open>n - k + 1\<close> windows of length \<open>k\<close> from left to right.\<close>

definition window :: "'a list \<Rightarrow> nat \<Rightarrow> nat \<Rightarrow> 'a list" where
  "window xs k j = take k (drop j xs)"

definition windows :: "'a list \<Rightarrow> nat \<Rightarrow> 'a list list" where
  "windows xs k = map (window xs k) [0..<length xs + 1 - k]"

definition count_vowels :: "string \<Rightarrow> int" where
  "count_vowels w = int (length (filter is_vowel w))"

definition count_W :: "string \<Rightarrow> int" where
  "count_W w = int (length (filter (\<lambda>c. c = CHR ''W'') w))"

definition count_non_B :: "string \<Rightarrow> int" where
  "count_non_B w = int (length (filter (\<lambda>c. c \<noteq> CHR ''B'') w))"

text \<open>The exact sum of a block of \<open>int\<close> values, as an unbounded integer.\<close>

definition isum :: "int32 list \<Rightarrow> int" where
  "isum w = sum_list (map sint w)"

text \<open>The values an \<open>int\<close> holds.\<close>

definition in_int_range :: "int \<Rightarrow> bool" where
  "in_int_range z \<longleftrightarrow> - (2 ^ 31) \<le> z \<and> z < 2 ^ 31"

section \<open>Taking cards from either end\<close>

text \<open>The game of problem 1423, as the spec words it: \<open>k\<close> times, take the first or
  the last card of the row. \<open>take_ends cards k\<close> is the largest total that \<open>k\<close> such
  moves reach, on exact integers.\<close>

fun take_ends :: "int list \<Rightarrow> nat \<Rightarrow> int" where
  "take_ends cards 0 = 0"
| "take_ends [] (Suc k) = 0"
| "take_ends (c # cards) (Suc k) =
     max (c + take_ends cards k) (last (c # cards) + take_ends (butlast (c # cards)) k)"

section \<open>The frequency table of a block, and the distinct windows\<close>

text \<open>The table that \<open>cnt\<close> holds when exactly the elements of \<open>w\<close> are in the window:
  every value that occurs, with its number of occurrences.\<close>

definition freq_of :: "int32 list \<Rightarrow> freq" where
  "freq_of w = (\<lambda>x. if x \<in> set w then Some (int (count_list w x)) else None)"

text \<open>The exact sums of the windows of length \<open>k\<close> whose elements are pairwise
  distinct, and the spec's value for \<open>maximumSubarraySum\<close>: their maximum, 0 if there is
  none.\<close>

definition distinct_window_sums :: "int32 list \<Rightarrow> nat \<Rightarrow> int set" where
  "distinct_window_sums nums k =
     {isum (window nums k j) | j. j + k \<le> length nums \<and> distinct (window nums k j)}"

definition max_distinct_window_sum :: "int32 list \<Rightarrow> nat \<Rightarrow> int" where
  "max_distinct_window_sum nums k =
     (if distinct_window_sums nums k = {} then 0 else Max (distinct_window_sums nums k))"

section \<open>The brute-force definitions\<close>

text \<open>Each recomputes the aggregate of every window from the window's elements alone.
  A sum of \<open>int\<close> values is added up in \<open>int\<close>, as the function under test does;
  the \<open>long long\<close> sum of a window of \<open>int\<close> values is its exact sum.\<close>

definition bf_maxVowels :: "string \<Rightarrow> nat \<Rightarrow> int" where
  "bf_maxVowels s k = Max (set (map count_vowels (windows s k)))"

definition bf_maximumSubarraySum :: "int32 list \<Rightarrow> nat \<Rightarrow> int" where
  "bf_maximumSubarraySum nums k =
     (let totals = map isum (filter distinct (windows nums k))
      in if totals = [] then 0 else Max (set totals))"

definition bf_numOfSubarrays :: "int32 list \<Rightarrow> int32 \<Rightarrow> int32 \<Rightarrow> int" where
  "bf_numOfSubarrays arr k threshold =
     int (length (filter (\<lambda>w. sint (k * threshold) \<le> sint (sum_list w))
                    (windows arr (nat (sint k)))))"

section \<open>The loops on indices that cannot wrap\<close>

text \<open>For the proofs only: the loops above once more, with the lengths and indices
  (\<open>n\<close>, \<open>m\<close>, \<open>i\<close>, \<open>r\<close>, \<open>left\<close>) as unbounded integers. On a sequence of fewer than
  \<open>2 ^ 31\<close> elements and with \<open>1 \<le> k\<close> each function above returns what its
  counterpart here returns, \<open>numOfSubarrays\<close> as a 32-bit word (section ``The functions
  and their counterparts on unbounded indices''); the loop invariants are proved on the
  counterparts.\<close>

function minimumRecolors_first_unbounded :: "string \<Rightarrow> int \<Rightarrow> int \<Rightarrow> int \<Rightarrow> int option" where
  "minimumRecolors_first_unbounded blocks k i cntW =
     (if i < k then
        (case index_at blocks i of
           None \<Rightarrow> None
         | Some c \<Rightarrow>
             minimumRecolors_first_unbounded blocks k (i + 1) (if c = CHR ''W'' then cntW + 1 else cntW))
      else Some cntW)"
  by pat_completeness auto
termination
  by (relation "measure (\<lambda>(blocks, k, i, cntW). nat (k - i))") auto
declare minimumRecolors_first_unbounded.simps [simp del]

function minimumRecolors_slide_unbounded :: "string \<Rightarrow> int \<Rightarrow> int \<Rightarrow> int \<Rightarrow> int \<Rightarrow> int option" where
  "minimumRecolors_slide_unbounded blocks k r cntW ans =
     (if r < int (length blocks) then
        (case index_at blocks r of
           None \<Rightarrow> None
         | Some c \<Rightarrow>
             (case index_at blocks (r - k) of
                None \<Rightarrow> None
              | Some d \<Rightarrow>
                  (let cntW1 = (if c = CHR ''W'' then cntW + 1 else cntW);
                       cntW2 = (if d = CHR ''W'' then cntW1 - 1 else cntW1)
                   in minimumRecolors_slide_unbounded blocks k (r + 1) cntW2 (min ans cntW2))))
      else Some ans)"
  by pat_completeness auto
termination
  by (relation "measure (\<lambda>(blocks, k, r, cntW, ans). nat (int (length blocks) - r))") auto
declare minimumRecolors_slide_unbounded.simps [simp del]

definition minimumRecolors_unbounded :: "string \<Rightarrow> int32 \<Rightarrow> int option" where
  "minimumRecolors_unbounded blocks k =
     (case minimumRecolors_first_unbounded blocks (sint k) 0 0 of
        None \<Rightarrow> None
      | Some cntW \<Rightarrow> minimumRecolors_slide_unbounded blocks (sint k) (sint k) cntW cntW)"

function maxVowels_loop_unbounded :: "string \<Rightarrow> int \<Rightarrow> int \<Rightarrow> int \<Rightarrow> int \<Rightarrow> int option" where
  "maxVowels_loop_unbounded s k i ans yuanyin =
     (if i < int (length s) then
        (case index_at s i of
           None \<Rightarrow> None
         | Some c \<Rightarrow>
             (let yuanyin1 = (if is_vowel c then yuanyin + 1 else yuanyin);
                  left = i - k + 1
              in if left < 0 then maxVowels_loop_unbounded s k (i + 1) ans yuanyin1
                 else
                   (let ans1 = max ans yuanyin1
                    in if ans1 = k then Some ans1
                       else
                         (case index_at s left of
                            None \<Rightarrow> None
                          | Some d \<Rightarrow>
                              maxVowels_loop_unbounded s k (i + 1) ans1
                                (if is_vowel d then yuanyin1 - 1 else yuanyin1)))))
      else Some ans)"
  by pat_completeness auto
termination
  by (relation "measure (\<lambda>(s, k, i, ans, yuanyin). nat (int (length s) - i))") auto
declare maxVowels_loop_unbounded.simps [simp del]

definition maxVowels_unbounded :: "string \<Rightarrow> int32 \<Rightarrow> int option" where
  "maxVowels_unbounded s k = maxVowels_loop_unbounded s (sint k) 0 0 0"

function numOfSubarrays_loop_unbounded ::
  "int32 list \<Rightarrow> int32 \<Rightarrow> int32 \<Rightarrow> int \<Rightarrow> int \<Rightarrow> int32 \<Rightarrow> int option" where
  "numOfSubarrays_loop_unbounded arr k threshold i ans s =
     (if i < int (length arr) then
        (case index_at arr i of
           None \<Rightarrow> None
         | Some x \<Rightarrow>
             (let s1 = s + x
              in if i < sint k - 1 then numOfSubarrays_loop_unbounded arr k threshold (i + 1) ans s1
                 else
                   (let ans1 = ans + (if sint (k * threshold) \<le> sint s1 then 1 else 0)
                    in case index_at arr (i - sint k + 1) of
                         None \<Rightarrow> None
                       | Some y \<Rightarrow>
                           numOfSubarrays_loop_unbounded arr k threshold (i + 1) ans1 (s1 - y))))
      else Some ans)"
  by pat_completeness auto
termination
  by (relation "measure (\<lambda>(arr, k, threshold, i, ans, s). nat (int (length arr) - i))") auto
declare numOfSubarrays_loop_unbounded.simps [simp del]

definition numOfSubarrays_unbounded :: "int32 list \<Rightarrow> int32 \<Rightarrow> int32 \<Rightarrow> int option" where
  "numOfSubarrays_unbounded arr k threshold = numOfSubarrays_loop_unbounded arr k threshold 0 0 0"

function maxScore_loop_unbounded :: "int32 list \<Rightarrow> int \<Rightarrow> int \<Rightarrow> int32 \<Rightarrow> int32 \<Rightarrow> int32 option" where
  "maxScore_loop_unbounded cardPoints m i s min_s =
     (if i < int (length cardPoints) then
        (case index_at cardPoints i of
           None \<Rightarrow> None
         | Some a \<Rightarrow>
             (case index_at cardPoints (i - m) of
                None \<Rightarrow> None
              | Some b \<Rightarrow>
                  (let s1 = s + (a - b)
                   in maxScore_loop_unbounded cardPoints m (i + 1) s1 (smin min_s s1))))
      else Some min_s)"
  by pat_completeness auto
termination
  by (relation "measure (\<lambda>(cardPoints, m, i, s, min_s). nat (int (length cardPoints) - i))") auto
declare maxScore_loop_unbounded.simps [simp del]

definition maxScore_unbounded :: "int32 list \<Rightarrow> int32 \<Rightarrow> int32 option" where
  "maxScore_unbounded cardPoints k =
     (let n = int (length cardPoints);
          m = n - sint k
      in case reduce cardPoints m of
           None \<Rightarrow> None
         | Some s \<Rightarrow>
             (case maxScore_loop_unbounded cardPoints m m s s of
                None \<Rightarrow> None
              | Some min_s \<Rightarrow>
                  (case reduce cardPoints n of
                     None \<Rightarrow> None
                   | Some all_s \<Rightarrow> Some (all_s - min_s))))"

function maximumSubarraySum_loop_unbounded ::
  "int32 list \<Rightarrow> int32 \<Rightarrow> int \<Rightarrow> int64 \<Rightarrow> int64 \<Rightarrow> freq \<Rightarrow> int64 option" where
  "maximumSubarraySum_loop_unbounded nums k i ans s cnt =
     (if i < int (length nums) then
        (case index_at nums i of
           None \<Rightarrow> None
         | Some x \<Rightarrow>
             (let s1 = s + scast x;
                  cnt1 = cnt_incr cnt x;
                  left = i - sint k + 1
              in if left < 0 then maximumSubarraySum_loop_unbounded nums k (i + 1) ans s1 cnt1
                 else
                   (let ans1 = (if cnt_size cnt1 = sint k then smax ans s1 else ans)
                    in case index_at nums left of
                         None \<Rightarrow> None
                       | Some out \<Rightarrow>
                           maximumSubarraySum_loop_unbounded nums k (i + 1) ans1 (s1 - scast out)
                             (cnt_decr_erase cnt1 out))))
      else Some ans)"
  by pat_completeness auto
termination
  by (relation "measure (\<lambda>(nums, k, i, ans, s, cnt). nat (int (length nums) - i))") auto
declare maximumSubarraySum_loop_unbounded.simps [simp del]

definition maximumSubarraySum_unbounded :: "int32 list \<Rightarrow> int32 \<Rightarrow> int64 option" where
  "maximumSubarraySum_unbounded nums k = maximumSubarraySum_loop_unbounded nums k 0 0 0 Map.empty"

function findMaxAverage_loop_unbounded ::
  "int32 list \<Rightarrow> int32 \<Rightarrow> int \<Rightarrow> int32 \<Rightarrow> int32 \<Rightarrow> int32 option" where
  "findMaxAverage_loop_unbounded nums k i max_s s =
     (if i < int (length nums) then
        (case index_at nums i of
           None \<Rightarrow> None
         | Some x \<Rightarrow>
             (let s1 = s + x
              in if i < sint k - 1 then findMaxAverage_loop_unbounded nums k (i + 1) max_s s1
                 else
                   (let max_s1 = smax max_s s1
                    in case index_at nums (i - sint k + 1) of
                         None \<Rightarrow> None
                       | Some y \<Rightarrow> findMaxAverage_loop_unbounded nums k (i + 1) max_s1 (s1 - y))))
      else Some max_s)"
  by pat_completeness auto
termination
  by (relation "measure (\<lambda>(nums, k, i, max_s, s). nat (int (length nums) - i))") auto
declare findMaxAverage_loop_unbounded.simps [simp del]

definition findMaxAverage_unbounded :: "(int \<Rightarrow> int \<Rightarrow> 'd) \<Rightarrow> int32 list \<Rightarrow> int32 \<Rightarrow> 'd option" where
  "findMaxAverage_unbounded fdiv nums k =
     (case findMaxAverage_loop_unbounded nums k 0 INT_MIN 0 of
        None \<Rightarrow> None
      | Some max_s \<Rightarrow> Some (fdiv (sint max_s) (sint k)))"


section \<open>Checked access and windows: basic facts\<close>

lemma index_at_Some: "0 \<le> i \<Longrightarrow> i < int (length xs) \<Longrightarrow> index_at xs i = Some (xs ! nat i)"
  by (simp add: index_at_def)

lemma take_drop_admit:
  assumes "lo \<le> i" "i < length xs"
  shows "take (Suc i - lo) (drop lo xs) = take (i - lo) (drop lo xs) @ [xs ! i]"
proof -
  have "i - lo < length (drop lo xs)" using assms by simp
  then have "take (Suc (i - lo)) (drop lo xs) = take (i - lo) (drop lo xs) @ [drop lo xs ! (i - lo)]"
    by (rule take_Suc_conv_app_nth)
  moreover have "drop lo xs ! (i - lo) = xs ! i" using assms by simp
  moreover have "Suc i - lo = Suc (i - lo)" using assms by simp
  ultimately show ?thesis by simp
qed

lemma take_drop_evict:
  assumes "lo < length xs"
  shows "take (Suc m) (drop lo xs) = xs ! lo # take m (drop (Suc lo) xs)"
proof -
  have "drop lo xs = xs ! lo # drop (Suc lo) xs"
    using assms by (simp add: Cons_nth_drop_Suc)
  then show ?thesis by simp
qed

lemma window_admit:
  "i < length xs \<Longrightarrow> window xs (Suc i) 0 = window xs i 0 @ [xs ! i]"
  by (simp add: window_def take_Suc_conv_app_nth)

lemma window_slide:
  assumes "j + k < length xs"
  shows "window xs (Suc k) j = window xs k j @ [xs ! (j + k)]"
    and "window xs (Suc k) j = xs ! j # window xs k (Suc j)"
proof -
  show "window xs (Suc k) j = window xs k j @ [xs ! (j + k)]"
    using take_drop_admit [of j "j + k" xs] assms by (simp add: window_def)
  show "window xs (Suc k) j = xs ! j # window xs k (Suc j)"
    using take_drop_evict [of j xs k] assms by (simp add: window_def)
qed

lemma count_W_snoc: "count_W (w @ [c]) = (if c = CHR ''W'' then count_W w + 1 else count_W w)"
  by (simp add: count_W_def)

lemma count_W_Cons: "count_W (c # w) = (if c = CHR ''W'' then count_W w + 1 else count_W w)"
  by (simp add: count_W_def)

lemma minimumRecolors_first_inv:
  assumes "k \<le> int (length blocks)"
  shows "0 \<le> i \<Longrightarrow> i \<le> k \<Longrightarrow> cntW = count_W (window blocks (nat i) 0) \<Longrightarrow>
    minimumRecolors_first_unbounded blocks k i cntW = Some (count_W (window blocks (nat k) 0))"
proof (induction "nat (k - i)" arbitrary: i cntW)
  case 0
  then have "i = k" by simp
  with 0 show ?case by (simp add: minimumRecolors_first_unbounded.simps)
next
  case (Suc d)
  then have lt: "i < k" by linarith
  with assms Suc.prems have inb: "nat i < length blocks" by linarith
  have ix: "index_at blocks i = Some (blocks ! nat i)"
    using Suc.prems lt assms by (simp add: index_at_Some)
  have nat_suc: "nat (i + 1) = Suc (nat i)" using Suc.prems by simp
  have step: "count_W (window blocks (nat (i + 1)) 0) =
      (if blocks ! nat i = CHR ''W'' then cntW + 1 else cntW)"
    using inb Suc.prems by (simp add: nat_suc window_admit count_W_snoc)
  have "minimumRecolors_first_unbounded blocks k (i + 1) (if blocks ! nat i = CHR ''W'' then cntW + 1 else cntW)
      = Some (count_W (window blocks (nat k) 0))"
    using Suc.hyps(2) Suc.prems lt step by (intro Suc.hyps(1)) auto
  then show ?case
    using lt ix by (subst minimumRecolors_first_unbounded.simps) simp
qed

lemma count_W_slide:
  assumes "j + k < length xs"
  shows "count_W (window xs k (Suc j)) =
    (if xs ! j = CHR ''W'' then (if xs ! (j + k) = CHR ''W'' then count_W (window xs k j) + 1 else count_W (window xs k j)) - 1
     else (if xs ! (j + k) = CHR ''W'' then count_W (window xs k j) + 1 else count_W (window xs k j)))"
proof -
  have "count_W (window xs k j @ [xs ! (j + k)]) = count_W (xs ! j # window xs k (Suc j))"
    using window_slide [OF assms] by simp
  then show ?thesis
    by (simp add: count_W_snoc count_W_Cons split: if_splits)
qed

lemma minimumRecolors_slide_inv:
  fixes blocks :: string and k :: int
  assumes k: "1 \<le> k" "k \<le> int (length blocks)"
  defines "cw \<equiv> \<lambda>j. count_W (window blocks (nat k) j)"
  shows "int j + k \<le> int (length blocks) \<Longrightarrow> cntW = cw j \<Longrightarrow> ans = Min (cw ` {..j}) \<Longrightarrow>
    minimumRecolors_slide_unbounded blocks k (int j + k) cntW ans = Some (Min (cw ` {..length blocks - nat k}))"
proof (induction "length blocks - nat k - j" arbitrary: j cntW ans)
  case 0
  then have "j = length blocks - nat k" using k by linarith
  moreover have "\<not> int j + k < int (length blocks)" using 0 k by linarith
  ultimately show ?case using 0
    by (subst minimumRecolors_slide_unbounded.simps) simp
next
  case (Suc d)
  let ?r = "int j + k"
  have lt: "?r < int (length blocks)" using Suc.hyps(2) k by linarith
  have jk: "j + nat k < length blocks" using lt k by linarith
  have ixr: "index_at blocks ?r = Some (blocks ! (j + nat k))"
    using lt k by (simp add: index_at_def nat_add_distrib)
  have ixl: "index_at blocks (?r - k) = Some (blocks ! j)"
    using lt k by (simp add: index_at_def)
  let ?c1 = "if blocks ! (j + nat k) = CHR ''W'' then cntW + 1 else cntW"
  let ?c2 = "if blocks ! j = CHR ''W'' then ?c1 - 1 else ?c1"
  have c2: "?c2 = cw (Suc j)"
    unfolding cw_def using count_W_slide [OF jk] Suc.prems(2) by (simp add: cw_def)
  have ans: "min ans ?c2 = Min (cw ` {..Suc j})"
    using Suc.prems(3) c2 by (simp add: atMost_Suc min.commute)
  have "minimumRecolors_slide_unbounded blocks k (int (Suc j) + k) ?c2 (min ans ?c2)
      = Some (Min (cw ` {..length blocks - nat k}))"
    using Suc.hyps(2) lt c2 ans by (intro Suc.hyps(1)) auto
  moreover have next_r: "int (Suc j) + k = ?r + 1" by simp
  ultimately have rec: "minimumRecolors_slide_unbounded blocks k (?r + 1) ?c2 (min ans ?c2)
      = Some (Min (cw ` {..length blocks - nat k}))" by (simp only: next_r)
  show ?case
    by (subst minimumRecolors_slide_unbounded.simps)
       (simp only: lt if_True ixr ixl option.simps Let_def rec)
qed

lemma window_image_eq:
  "k \<le> length xs \<Longrightarrow> {f (window xs k j) | j. j + k \<le> length xs} = (\<lambda>j. f (window xs k j)) ` {..length xs - k}"
  by (auto simp: image_iff) 

lemma minimumRecolors_result:
  assumes "1 \<le> sint k" "sint k \<le> int (length blocks)"
  shows "minimumRecolors_unbounded blocks k =
    Some (Min {count_W (window blocks (nat (sint k)) j) | j. j + nat (sint k) \<le> length blocks})"
proof -
  let ?K = "nat (sint k)"
  have first: "minimumRecolors_first_unbounded blocks (sint k) 0 0 = Some (count_W (window blocks ?K 0))"
    using assms by (intro minimumRecolors_first_inv) (simp_all add: window_def count_W_def)
  have "minimumRecolors_slide_unbounded blocks (sint k) (int 0 + sint k) (count_W (window blocks ?K 0)) (count_W (window blocks ?K 0))
     = Some (Min ((\<lambda>j. count_W (window blocks ?K j)) ` {..length blocks - ?K}))"
    using assms by (intro minimumRecolors_slide_inv) simp_all
  then show ?thesis
    using first assms by (simp add: minimumRecolors_unbounded_def window_image_eq)
qed

section \<open>The loop of maxVowels_unbounded\<close>

lemma count_vowels_snoc:
  "count_vowels (w @ [c]) = (if is_vowel c then count_vowels w + 1 else count_vowels w)"
  by (simp add: count_vowels_def)

lemma count_vowels_Cons:
  "count_vowels (c # w) = (if is_vowel c then count_vowels w + 1 else count_vowels w)"
  by (simp add: count_vowels_def)

lemma count_vowels_bounds: "0 \<le> count_vowels w" "count_vowels w \<le> int (length w)"
  by (simp_all add: count_vowels_def)

lemma count_vowels_window_le: "count_vowels (window s k j) \<le> int k"
proof -
  have "count_vowels (window s k j) \<le> int (length (window s k j))"
    by (rule count_vowels_bounds)
  also have "\<dots> \<le> int k" by (simp add: window_def)
  finally show ?thesis .
qed

lemma Max_insert0_lessThan_Suc:
  fixes f :: "nat \<Rightarrow> int"
  shows "Max (insert 0 (f ` {..<Suc j})) = max (Max (insert 0 (f ` {..<j}))) (f j)"
proof -
  have "insert 0 (f ` {..<Suc j}) = insert (f j) (insert 0 (f ` {..<j}))"
    by (auto simp: lessThan_Suc)
  then show ?thesis by (simp add: max.commute)
qed

lemma maxVowels_slide_inv:
  fixes s :: string and k :: int
  assumes k: "1 \<le> k" "k \<le> int (length s)"
  defines "cv \<equiv> \<lambda>j. count_vowels (window s (nat k) j)"
  shows "j + nat k \<le> length s + 1 \<Longrightarrow> yuanyin = count_vowels (window s (nat k - 1) j) \<Longrightarrow>
    ans = Max (insert 0 (cv ` {..<j})) \<Longrightarrow>
    maxVowels_loop_unbounded s k (int j + k - 1) ans yuanyin
      = Some (Max (insert 0 (cv ` {..<length s + 1 - nat k})))"
proof (induction "length s + 1 - nat k - j" arbitrary: j yuanyin ans)
  case 0
  then have "j = length s + 1 - nat k" using k by linarith
  moreover have "\<not> int j + k - 1 < int (length s)" using 0 k by linarith
  ultimately show ?case using 0
    by (subst maxVowels_loop_unbounded.simps) simp
next
  case (Suc d)
  let ?i = "int j + k - 1"
  let ?K = "nat k"
  have lt: "?i < int (length s)" using Suc.hyps(2) k by linarith
  have jk: "j + (?K - 1) < length s" using lt k by linarith
  have K: "Suc (?K - 1) = ?K" using k by simp
  have ixi: "index_at s ?i = Some (s ! (j + (?K - 1)))"
  proof -
    have "nat ?i = j + (?K - 1)" using k by linarith
    then show ?thesis using lt k by (simp add: index_at_def)
  qed
  have left: "?i - k + 1 = int j" by simp
  have nleft: "\<not> int j < 0" by simp
  have ixl: "index_at s (int j) = Some (s ! j)"
    using jk by (simp add: index_at_def)
  let ?y1 = "if is_vowel (s ! (j + (?K - 1))) then yuanyin + 1 else yuanyin"
  let ?a1 = "max ans ?y1"
  let ?y2 = "if is_vowel (s ! j) then ?y1 - 1 else ?y1"
  have slide: "window s ?K j = window s (?K - 1) j @ [s ! (j + (?K - 1))]"
      "window s ?K j = s ! j # window s (?K - 1) (Suc j)"
    using window_slide [OF jk] K by simp_all
  have y1: "?y1 = cv j"
    unfolding cv_def by (subst slide(1)) (simp add: count_vowels_snoc Suc.prems(2))
  have y2: "?y2 = count_vowels (window s (?K - 1) (Suc j))"
  proof -
    have "cv j = count_vowels (s ! j # window s (?K - 1) (Suc j))"
      unfolding cv_def by (subst slide(2)) simp
    then show ?thesis using y1 by (simp add: count_vowels_Cons split: if_splits)
  qed
  have a1: "?a1 = Max (insert 0 (cv ` {..<Suc j}))"
    using Suc.prems(3) y1 by (simp only: Max_insert0_lessThan_Suc)
  show ?case
  proof (cases "?a1 = k")
    case True
    let ?all = "insert 0 (cv ` {..<length s + 1 - ?K})"
    have "Max ?all \<le> k"
    proof -
      have "\<forall>x \<in> ?all. x \<le> k"
        using k count_vowels_window_le [of s ?K] by (auto simp: cv_def)
      then show ?thesis by simp
    qed
    moreover have "k \<le> Max ?all"
    proof -
      have "insert 0 (cv ` {..<Suc j}) \<subseteq> ?all" using jk k by auto
      then have "Max (insert 0 (cv ` {..<Suc j})) \<le> Max ?all"
        by (intro Max_mono) auto
      with a1 True show ?thesis by linarith
    qed
    ultimately have "Max ?all = ?a1" using True by linarith
    with True have fin: "Max ?all = k" by simp
    show ?thesis
      by (subst maxVowels_loop_unbounded.simps)
        (simp only: lt if_True ixi option.simps Let_def left nleft if_False True fin simp_thms)
  next
    case False
    have d: "d = length s + 1 - ?K - Suc j" using Suc.hyps(2) by linarith
    have bound: "Suc j + ?K \<le> length s + 1" using jk k by linarith
    have "maxVowels_loop_unbounded s k (int (Suc j) + k - 1) ?a1 ?y2
        = Some (Max (insert 0 (cv ` {..<length s + 1 - ?K})))"
      by (rule Suc.hyps(1) [OF d bound y2 a1])
    moreover have next_i: "int (Suc j) + k - 1 = ?i + 1" by simp
    ultimately have rec: "maxVowels_loop_unbounded s k (?i + 1) ?a1 ?y2
        = Some (Max (insert 0 (cv ` {..<length s + 1 - ?K})))"
      by (simp only: next_i)
    show ?thesis
      by (subst maxVowels_loop_unbounded.simps)
        (simp only: lt if_True ixi option.simps Let_def left nleft if_False False ixl rec)
  qed
qed

lemma maxVowels_fill_inv:
  fixes s :: string and k :: int
  assumes k: "1 \<le> k" "k \<le> int (length s)"
  shows "0 \<le> i \<Longrightarrow> i \<le> k - 1 \<Longrightarrow> yuanyin = count_vowels (window s (nat i) 0) \<Longrightarrow>
    maxVowels_loop_unbounded s k i 0 yuanyin
      = Some (Max (insert 0 ((\<lambda>j. count_vowels (window s (nat k) j)) ` {..<length s + 1 - nat k})))"
proof (induction "nat (k - 1 - i)" arbitrary: i yuanyin)
  case 0
  then have i: "i = int 0 + k - 1" by simp
  have "nat i = nat k - 1" using i by simp
  then show ?case
    unfolding i using k 0 by (intro maxVowels_slide_inv) simp_all
next
  case (Suc d)
  then have lt: "i < k - 1" by linarith
  have inb: "nat i < length s" using lt k Suc.prems by linarith
  have ilt: "i < int (length s)" using lt k by linarith
  have ixi: "index_at s i = Some (s ! nat i)"
    using Suc.prems ilt by (simp add: index_at_def)
  have left: "i - k + 1 < 0" using lt by simp
  let ?y1 = "if is_vowel (s ! nat i) then yuanyin + 1 else yuanyin"
  have nat_suc: "nat (i + 1) = Suc (nat i)" using Suc.prems by simp
  have y1: "?y1 = count_vowels (window s (nat (i + 1)) 0)"
    using inb Suc.prems by (simp add: nat_suc window_admit count_vowels_snoc)
  have d: "d = nat (k - 1 - (i + 1))" using Suc.hyps(2) by linarith
  have i1: "0 \<le> i + 1" "i + 1 \<le> k - 1" using Suc.prems lt by linarith+
  have rec: "maxVowels_loop_unbounded s k (i + 1) 0 ?y1
      = Some (Max (insert 0 ((\<lambda>j. count_vowels (window s (nat k) j)) ` {..<length s + 1 - nat k})))"
    by (rule Suc.hyps(1) [OF d i1 y1])
  show ?case
    by (subst maxVowels_loop_unbounded.simps)
      (simp only: ilt if_True ixi option.simps Let_def left rec)
qed

lemma Max_insert0_nonneg:
  fixes A :: "int set"
  assumes "finite A" "A \<noteq> {}" "\<forall>x\<in>A. 0 \<le> x"
  shows "Max (insert 0 A) = Max A"
proof -
  have "0 \<le> Max A" using assms by (meson Max_in)
  then show ?thesis using assms by (simp add: max_def)
qed

lemma lessThan_windows: "k \<le> n \<Longrightarrow> {..<n + 1 - k} = {..n - (k::nat)}"
  by auto

lemma maxVowels_result:
  assumes "1 \<le> sint k" "sint k \<le> int (length s)"
  shows "maxVowels_unbounded s k =
    Some (Max {count_vowels (window s (nat (sint k)) j) | j. j + nat (sint k) \<le> length s})"
proof -
  let ?K = "nat (sint k)"
  let ?A = "(\<lambda>j. count_vowels (window s ?K j)) ` {..length s - ?K}"
  have K: "?K \<le> length s" using assms by linarith
  have "maxVowels_loop_unbounded s (sint k) 0 0 0 = Some (Max (insert 0 ((\<lambda>j. count_vowels (window s ?K j)) ` {..<length s + 1 - ?K})))"
    using assms by (intro maxVowels_fill_inv) (simp_all add: window_def count_vowels_def)
  then have "maxVowels_unbounded s k = Some (Max (insert 0 ?A))"
    by (simp only: maxVowels_unbounded_def lessThan_windows [OF K])
  moreover have "Max (insert 0 ?A) = Max ?A"
    by (intro Max_insert0_nonneg) (auto simp: count_vowels_bounds)
  ultimately show ?thesis
    by (simp only: window_image_eq [OF K])
qed

section \<open>The loop of numOfSubarrays_unbounded\<close>

lemma filter_upt_Suc:
  "length (filter P [0..<Suc j]) = length (filter P [0..<j]) + (if P j then 1 else 0)"
  by simp

lemma numOfSubarrays_slide_inv:
  fixes arr :: "int32 list" and k threshold :: int32
  assumes k: "1 \<le> sint k" "sint k \<le> int (length arr)"
  defines "K \<equiv> nat (sint k)"
  defines "hit \<equiv> \<lambda>j. sint (k * threshold) \<le> sint (sum_list (window arr K j))"
  shows "j + K \<le> length arr + 1 \<Longrightarrow> s = sum_list (window arr (K - 1) j) \<Longrightarrow>
    ans = int (length (filter hit [0..<j])) \<Longrightarrow>
    numOfSubarrays_loop_unbounded arr k threshold (int j + sint k - 1) ans s
      = Some (int (length (filter hit [0..<length arr + 1 - K])))"
proof (induction "length arr + 1 - K - j" arbitrary: j s ans)
  case 0
  then have "j = length arr + 1 - K" using k K_def by linarith
  moreover have "\<not> int j + sint k - 1 < int (length arr)" using 0 k K_def by linarith
  ultimately show ?case using 0
    by (subst numOfSubarrays_loop_unbounded.simps) simp
next
  case (Suc d)
  let ?i = "int j + sint k - 1"
  have lt: "?i < int (length arr)" using Suc.hyps(2) k K_def by linarith
  have jk: "j + (K - 1) < length arr" using lt k K_def by linarith
  have K: "Suc (K - 1) = K" using k K_def by simp
  have ixi: "index_at arr ?i = Some (arr ! (j + (K - 1)))"
  proof -
    have "nat ?i = j + (K - 1)" using k K_def by linarith
    then show ?thesis using lt k by (simp add: index_at_def)
  qed
  have nfill: "\<not> ?i < sint k - 1" by simp
  have left: "?i - sint k + 1 = int j" by simp
  have ixl: "index_at arr (int j) = Some (arr ! j)"
    using jk by (simp add: index_at_def)
  let ?s1 = "s + arr ! (j + (K - 1))"
  let ?a1 = "ans + (if sint (k * threshold) \<le> sint ?s1 then 1 else 0)"
  let ?s2 = "?s1 - arr ! j"
  have slide: "window arr K j = window arr (K - 1) j @ [arr ! (j + (K - 1))]"
      "window arr K j = arr ! j # window arr (K - 1) (Suc j)"
    using window_slide [OF jk] K by simp_all
  have s1: "?s1 = sum_list (window arr K j)"
    by (subst slide(1)) (simp add: Suc.prems(2))
  have s2: "?s2 = sum_list (window arr (K - 1) (Suc j))"
  proof -
    have "?s1 = sum_list (arr ! j # window arr (K - 1) (Suc j))"
      unfolding s1 by (subst slide(2)) simp
    then show ?thesis by simp
  qed
  have a1: "?a1 = int (length (filter hit [0..<Suc j]))"
    unfolding filter_upt_Suc Suc.prems(3) hit_def s1 by simp
  have d: "d = length arr + 1 - K - Suc j" using Suc.hyps(2) by linarith
  have bound: "Suc j + K \<le> length arr + 1" using jk k K_def by linarith
  have "numOfSubarrays_loop_unbounded arr k threshold (int (Suc j) + sint k - 1) ?a1 ?s2
      = Some (int (length (filter hit [0..<length arr + 1 - K])))"
    by (rule Suc.hyps(1) [OF d bound s2 a1])
  moreover have next_i: "int (Suc j) + sint k - 1 = ?i + 1" by simp
  ultimately have rec: "numOfSubarrays_loop_unbounded arr k threshold (?i + 1) ?a1 ?s2
      = Some (int (length (filter hit [0..<length arr + 1 - K])))"
    by (simp only: next_i)
  show ?case
    by (subst numOfSubarrays_loop_unbounded.simps)
      (simp only: lt if_True ixi option.simps Let_def nfill if_False left ixl rec)
qed

lemma numOfSubarrays_fill_inv:
  fixes arr :: "int32 list" and k threshold :: int32
  assumes k: "1 \<le> sint k" "sint k \<le> int (length arr)"
  defines "K \<equiv> nat (sint k)"
  defines "hit \<equiv> \<lambda>j. sint (k * threshold) \<le> sint (sum_list (window arr K j))"
  shows "0 \<le> i \<Longrightarrow> i \<le> sint k - 1 \<Longrightarrow> s = sum_list (window arr (nat i) 0) \<Longrightarrow>
    numOfSubarrays_loop_unbounded arr k threshold i 0 s
      = Some (int (length (filter hit [0..<length arr + 1 - K])))"
proof (induction "nat (sint k - 1 - i)" arbitrary: i s)
  case 0
  then have i: "i = int 0 + sint k - 1" by simp
  have "nat i = K - 1" using i K_def by simp
  then show ?case
    unfolding i hit_def K_def using k 0 by (intro numOfSubarrays_slide_inv) simp_all
next
  case (Suc d)
  then have lt: "i < sint k - 1" by linarith
  have inb: "nat i < length arr" using lt k Suc.prems by linarith
  have ilt: "i < int (length arr)" using lt k by linarith
  have ixi: "index_at arr i = Some (arr ! nat i)"
    using Suc.prems ilt by (simp add: index_at_def)
  let ?s1 = "s + arr ! nat i"
  have nat_suc: "nat (i + 1) = Suc (nat i)" using Suc.prems by simp
  have s1: "?s1 = sum_list (window arr (nat (i + 1)) 0)"
    using inb Suc.prems by (simp add: nat_suc window_admit)
  have d: "d = nat (sint k - 1 - (i + 1))" using Suc.hyps(2) by linarith
  have i1: "0 \<le> i + 1" "i + 1 \<le> sint k - 1" using Suc.prems lt by linarith+
  have rec: "numOfSubarrays_loop_unbounded arr k threshold (i + 1) 0 ?s1
      = Some (int (length (filter hit [0..<length arr + 1 - K])))"
    by (rule Suc.hyps(1) [OF d i1 s1])
  show ?case
    by (subst numOfSubarrays_loop_unbounded.simps)
      (simp only: ilt if_True ixi option.simps Let_def lt rec)
qed

lemma numOfSubarrays_machine:
  assumes "1 \<le> sint k" "sint k \<le> int (length arr)"
  shows "numOfSubarrays_unbounded arr k threshold =
    Some (int (length (filter (\<lambda>w. sint (k * threshold) \<le> sint (sum_list w))
                        (windows arr (nat (sint k))))))"
proof -
  have "numOfSubarrays_loop_unbounded arr k threshold 0 0 0 =
      Some (int (length (filter (\<lambda>j. sint (k * threshold) \<le> sint (sum_list (window arr (nat (sint k)) j)))
                          [0..<length arr + 1 - nat (sint k)])))"
    using assms by (intro numOfSubarrays_fill_inv) (simp_all add: window_def)
  then show ?thesis
    by (simp add: numOfSubarrays_unbounded_def windows_def filter_map comp_def)
qed

section \<open>Wrapped sums and exact sums\<close>

lemma sum_list_word_of_isum: "sum_list w = (word_of_int (isum w) :: int32)"
  by (induction w) (simp_all add: isum_def)

lemma sint_int32_of_int: "in_int_range z \<Longrightarrow> sint (word_of_int z :: int32) = z"
  unfolding in_int_range_def by (simp add: signed_take_bit_int_eq_self sint_sbintrunc')

lemma sint_sum_list: "in_int_range (isum w) \<Longrightarrow> sint (sum_list w :: int32) = isum w"
  by (simp add: sum_list_word_of_isum sint_int32_of_int)

lemma sint_mult_int32:
  "in_int_range (sint a * sint b) \<Longrightarrow> sint (a * b :: int32) = sint a * sint b"
proof -
  assume r: "in_int_range (sint a * sint b)"
  have e: "a * b = (word_of_int (sint a * sint b) :: int32)" by simp
  show ?thesis by (subst e) (rule sint_int32_of_int [OF r])
qed

lemma set_windows:
  "k \<le> length xs \<Longrightarrow> set (windows xs k) = {window xs k j | j. j + k \<le> length xs}"
  by (auto simp: windows_def)

lemma length_filter_upt_card:
  "length (filter P [0..<m]) = card {j. j < m \<and> P j}"
  by (simp add: length_filter_conv_card cong: conj_cong)

lemma mean_ge_iff:
  fixes a t k :: int
  assumes "0 < k"
  shows "real_of_int t \<le> real_of_int a / real_of_int k \<longleftrightarrow> k * t \<le> a"
proof -
  have "real_of_int t \<le> real_of_int a / real_of_int k \<longleftrightarrow> real_of_int t * real_of_int k \<le> real_of_int a"
    using assms by (simp add: pos_le_divide_eq)
  also have "\<dots> \<longleftrightarrow> real_of_int (k * t) \<le> real_of_int a" by (simp add: mult.commute)
  also have "\<dots> \<longleftrightarrow> k * t \<le> a" by (rule of_int_le_iff)
  finally show ?thesis .
qed

lemma numOfSubarrays_exact:
  assumes k: "1 \<le> sint k" "sint k \<le> int (length arr)"
    and sums: "\<forall>w \<in> set (windows arr (nat (sint k))). in_int_range (isum w)"
    and prod: "in_int_range (sint k * sint threshold)"
  shows "numOfSubarrays_unbounded arr k threshold =
    Some (int (card {j. j + nat (sint k) \<le> length arr \<and>
       real_of_int (sint threshold) \<le>
         real_of_int (isum (window arr (nat (sint k)) j)) / real_of_int (sint k)}))"
proof -
  let ?K = "nat (sint k)"
  have K: "?K \<le> length arr" "0 < ?K" using k by linarith+
  have win: "in_int_range (isum (window arr ?K j))" if "j + ?K \<le> length arr" for j
    using sums that set_windows [OF K(1)] by auto
  have "{j. j < length arr + 1 - ?K \<and> sint (k * threshold) \<le> sint (sum_list (window arr ?K j))}
      = {j. j + ?K \<le> length arr \<and>
          real_of_int (sint threshold) \<le> real_of_int (isum (window arr ?K j)) / real_of_int (sint k)}"
    (is "?L = ?R")
  proof (rule Collect_cong)
    fix j
    show "(j < length arr + 1 - ?K \<and> sint (k * threshold) \<le> sint (sum_list (window arr ?K j)))
      \<longleftrightarrow> (j + ?K \<le> length arr \<and>
          real_of_int (sint threshold) \<le> real_of_int (isum (window arr ?K j)) / real_of_int (sint k))"
    proof (cases "j + ?K \<le> length arr")
      case True
      have "sint (sum_list (window arr ?K j)) = isum (window arr ?K j)"
        by (rule sint_sum_list [OF win [OF True]])
      moreover have "sint (k * threshold) = sint k * sint threshold"
        by (rule sint_mult_int32 [OF prod])
      moreover have "j < length arr + 1 - ?K" using True K by linarith
      moreover have "real_of_int (sint threshold)
            \<le> real_of_int (isum (window arr ?K j)) / real_of_int (sint k)
          \<longleftrightarrow> sint k * sint threshold \<le> isum (window arr ?K j)"
        by (rule mean_ge_iff) (use k in linarith)
      ultimately show ?thesis using True by (simp only: simp_thms)
    next
      case False
      then have "\<not> j < length arr + 1 - ?K" using K by linarith
      with False show ?thesis by simp
    qed
  qed
  then have "card ?R = length (filter (\<lambda>j. sint (k * threshold) \<le> sint (sum_list (window arr ?K j)))
      [0..<length arr + 1 - ?K])"
    by (simp only: length_filter_upt_card)
  also have "\<dots> = length (filter (\<lambda>w. sint (k * threshold) \<le> sint (sum_list w)) (windows arr ?K))"
    by (simp add: windows_def filter_map comp_def)
  finally show ?thesis
    using numOfSubarrays_machine [OF k, of threshold] by (simp only:)
qed

section \<open>The loop of maxScore_unbounded\<close>

lemma sint_smin: "sint (smin a b) = min (sint a) (sint b)"
  by (simp add: smin_def min_def)

lemma sint_smax: "sint (smax a b) = max (sint a) (sint b)"
  by (simp add: smax_def max_def)

lemma admit_evict_sum:
  fixes a b c d :: "'a::ab_group_add"
  assumes "a + b = c + d"
  shows "a + (b - c) = d"
proof -
  have "a + (b - c) = (a + b) - c" by simp
  also have "\<dots> = (c + d) - c" by (simp only: assms)
  also have "\<dots> = d" by simp
  finally show ?thesis .
qed

lemma maxScore_loop_inv:
  fixes cardPoints :: "int32 list" and m :: int
  assumes m: "0 \<le> m" "m \<le> int (length cardPoints)"
  defines "M \<equiv> nat m"
  defines "ws \<equiv> \<lambda>j. sint (sum_list (window cardPoints M j))"
  shows "j + M \<le> length cardPoints \<Longrightarrow> s = sum_list (window cardPoints M j) \<Longrightarrow>
    sint min_s = Min (ws ` {..j}) \<Longrightarrow>
    \<exists>r. maxScore_loop_unbounded cardPoints m (int j + m) s min_s = Some r
      \<and> sint r = Min (ws ` {..length cardPoints - M})"
proof (induction "length cardPoints - M - j" arbitrary: j s min_s)
  case 0
  then have "j = length cardPoints - M" using m M_def by linarith
  moreover have "\<not> int j + m < int (length cardPoints)" using 0 m M_def by linarith
  ultimately show ?case using 0
    by (subst maxScore_loop_unbounded.simps) simp
next
  case (Suc d)
  let ?i = "int j + m"
  have lt: "?i < int (length cardPoints)" using Suc.hyps(2) m M_def by linarith
  have jm: "j + M < length cardPoints" using lt m M_def by linarith
  have ixi: "index_at cardPoints ?i = Some (cardPoints ! (j + M))"
  proof -
    have "nat ?i = j + M" using m M_def by linarith
    then show ?thesis using lt m by (simp add: index_at_def)
  qed
  have evicted: "?i - m = int j" by simp
  have ixl: "index_at cardPoints (int j) = Some (cardPoints ! j)"
    using jm by (simp add: index_at_def)
  let ?s1 = "s + (cardPoints ! (j + M) - cardPoints ! j)"
  have "sum_list (window cardPoints M j @ [cardPoints ! (j + M)])
      = sum_list (cardPoints ! j # window cardPoints M (Suc j))"
    using window_slide [OF jm] by simp
  then have "sum_list (window cardPoints M j) + cardPoints ! (j + M)
      = cardPoints ! j + sum_list (window cardPoints M (Suc j))"
    by simp
  then have s1: "?s1 = sum_list (window cardPoints M (Suc j))"
    unfolding Suc.prems(2) by (rule admit_evict_sum)
  have min1: "sint (smin min_s ?s1) = Min (ws ` {..Suc j})"
    unfolding sint_smin Suc.prems(3) s1 ws_def by (simp add: atMost_Suc min.commute)
  have d: "d = length cardPoints - M - Suc j" using Suc.hyps(2) by linarith
  have bound: "Suc j + M \<le> length cardPoints" using jm by linarith
  have "\<exists>r. maxScore_loop_unbounded cardPoints m (int (Suc j) + m) ?s1 (smin min_s ?s1) = Some r
      \<and> sint r = Min (ws ` {..length cardPoints - M})"
    by (rule Suc.hyps(1) [OF d bound s1 min1])
  moreover have next_i: "int (Suc j) + m = ?i + 1" by simp
  ultimately have rec: "\<exists>r. maxScore_loop_unbounded cardPoints m (?i + 1) ?s1 (smin min_s ?s1) = Some r
      \<and> sint r = Min (ws ` {..length cardPoints - M})"
    by (simp only: next_i)
  show ?case
    by (subst maxScore_loop_unbounded.simps)
      (simp only: lt if_True ixi option.simps Let_def evicted ixl rec)
qed

lemma maxScore_machine:
  assumes k: "0 \<le> sint k" "sint k \<le> int (length cardPoints)"
  shows "\<exists>min_s. maxScore_unbounded cardPoints k = Some (sum_list cardPoints - min_s)
    \<and> sint min_s = Min ((\<lambda>j. sint (sum_list (window cardPoints (length cardPoints - nat (sint k)) j)))
          ` {..nat (sint k)})"
proof -
  let ?n = "int (length cardPoints)"
  let ?m = "?n - sint k"
  let ?M = "length cardPoints - nat (sint k)"
  have M: "nat ?m = ?M" using k by linarith
  have m: "0 \<le> ?m" "?m \<le> ?n" using k by linarith+
  have red_m: "reduce cardPoints ?m = Some (sum_list (window cardPoints ?M 0))"
    using m by (simp add: reduce_def window_def M)
  have red_n: "reduce cardPoints ?n = Some (sum_list cardPoints)"
    by (simp add: reduce_def)
  have len: "length cardPoints - ?M = nat (sint k)" using k by linarith
  have start: "int 0 + ?m = ?m" by simp
  have "\<exists>r. maxScore_loop_unbounded cardPoints ?m (int 0 + ?m) (sum_list (window cardPoints ?M 0))
        (sum_list (window cardPoints ?M 0)) = Some r
      \<and> sint r = Min ((\<lambda>j. sint (sum_list (window cardPoints (nat ?m) j))) ` {..length cardPoints - nat ?m})"
    using m by (intro maxScore_loop_inv) (simp_all add: M)
  then have "\<exists>r. maxScore_loop_unbounded cardPoints ?m ?m (sum_list (window cardPoints ?M 0))
        (sum_list (window cardPoints ?M 0)) = Some r
      \<and> sint r = Min ((\<lambda>j. sint (sum_list (window cardPoints ?M j))) ` {..nat (sint k)})"
    by (simp only: M len start)
  then obtain r where r: "maxScore_loop_unbounded cardPoints ?m ?m (sum_list (window cardPoints ?M 0))
        (sum_list (window cardPoints ?M 0)) = Some r"
      "sint r = Min ((\<lambda>j. sint (sum_list (window cardPoints ?M j))) ` {..nat (sint k)})"
    by blast
  have "maxScore_unbounded cardPoints k = Some (sum_list cardPoints - r)"
    by (simp add: maxScore_unbounded_def Let_def red_m red_n r(1))
  with r(2) show ?thesis by blast
qed

section \<open>Taking from the ends is leaving out a block\<close>

lemma window_Cons_Suc: "window (x # xs) m (Suc j) = window xs m j"
  by (simp add: window_def)

lemma window_butlast:
  assumes "j + m < length xs"
  shows "window (butlast xs) m j = window xs m j"
proof -
  have "take m (drop j (take (length xs - 1) xs)) = take m (take (length xs - 1 - j) (drop j xs))"
    by (simp add: drop_take)
  also have "\<dots> = take (min m (length xs - 1 - j)) (drop j xs)" by (simp add: min.commute)
  also have "min m (length xs - 1 - j) = m" using assms by linarith
  finally show ?thesis by (simp add: window_def butlast_conv_take)
qed

lemma atMost_Suc_shift: "Suc ` {..k} \<union> {..k} = {..Suc k}"
proof
  show "Suc ` {..k} \<union> {..k} \<subseteq> {..Suc k}" by auto
next
  show "{..Suc k} \<subseteq> Suc ` {..k} \<union> {..k}"
  proof
    fix x assume "x \<in> {..Suc k}"
    then have "x \<le> k \<or> x = Suc k" by auto
    then show "x \<in> Suc ` {..k} \<union> {..k}" by auto
  qed
qed

lemma take_ends_complement:
  "k \<le> length xs \<Longrightarrow>
   take_ends xs k = sum_list xs - Min ((\<lambda>j. sum_list (window xs (length xs - k) j)) ` {..k})"
proof (induction k arbitrary: xs)
  case 0
  then show ?case by (simp add: window_def)
next
  case (Suc k)
  then obtain x xs' where xs: "xs = x # xs'" by (cases xs) auto
  let ?m = "length xs - Suc k"
  let ?g = "\<lambda>j. sum_list (window xs ?m j)"
  have len: "length xs' - k = ?m" "length (butlast xs) - k = ?m" by (simp_all add: xs)
  have k1: "k \<le> length xs'" using Suc.prems xs by simp
  have k2: "k \<le> length (butlast xs)" using Suc.prems by simp
  have left: "take_ends xs' k = sum_list xs' - Min ((\<lambda>j. ?g (Suc j)) ` {..k})"
    using Suc.IH [OF k1] by (simp only: len xs window_Cons_Suc)
  have "window (butlast xs) ?m j = window xs ?m j" if "j \<le> k" for j
    using that Suc.prems by (intro window_butlast) linarith
  then have same: "(\<lambda>j. sum_list (window (butlast xs) ?m j)) ` {..k} = ?g ` {..k}"
    by (intro image_cong) auto
  have right: "take_ends (butlast xs) k = sum_list (butlast xs) - Min (?g ` {..k})"
    using Suc.IH [OF k2] by (simp only: len same)
  have tot: "x + sum_list xs' = sum_list xs" by (simp add: xs)
  have "butlast xs @ [last xs] = xs" by (simp add: xs)
  then have "sum_list (butlast xs) + last xs = sum_list xs"
    by (metis sum_list_append sum_list.Cons sum_list.Nil add.right_neutral)
  then have tot2: "last xs + sum_list (butlast xs) = sum_list xs" by linarith
  have "Min (?g ` {..Suc k}) = Min (?g ` (Suc ` {..k}) \<union> ?g ` {..k})"
    by (simp only: atMost_Suc_shift [symmetric] image_Un)
  also have "\<dots> = min (Min (?g ` (Suc ` {..k}))) (Min (?g ` {..k}))"
    by (intro Min_Un) auto
  finally have split: "Min (?g ` {..Suc k}) = min (Min ((\<lambda>j. ?g (Suc j)) ` {..k})) (Min (?g ` {..k}))"
    by (simp only: image_image)
  have "take_ends xs (Suc k) = max (x + take_ends xs' k) (last xs + take_ends (butlast xs) k)"
    by (simp add: xs)
  also have "\<dots> = sum_list xs - Min (?g ` {..Suc k})"
    unfolding left right split using tot tot2 by linarith
  finally show ?case .
qed

lemma isum_eq_sum_list: "isum w = sum_list (map sint w)"
  by (simp add: isum_def)

lemma map_sint_window: "map sint (window w m j) = window (map sint w) m j"
  by (simp add: window_def take_map drop_map)

lemma take_ends_complement_isum:
  assumes "k \<le> length cp"
  shows "take_ends (map sint cp) k
    = isum cp - Min {isum (window cp (length cp - k) j) | j. j \<le> k}"
proof -
  have "{isum (window cp (length cp - k) j) | j. j \<le> k}
      = (\<lambda>j. sum_list (window (map sint cp) (length (map sint cp) - k) j)) ` {..k}"
    by (auto simp: isum_def map_sint_window image_iff)
  then show ?thesis
    using take_ends_complement [of k "map sint cp"] assms by (simp add: isum_def)
qed

section \<open>maxScore_unbounded on exact integers\<close>

lemma word_of_int_sub_int32:
  "(word_of_int a :: int32) - word_of_int b = word_of_int (a - b)"
  by simp

lemma maxScore_exact:
  assumes k: "0 \<le> sint k" "sint k \<le> int (length cp)"
    and blocks: "\<forall>w \<in> set (windows cp (length cp - nat (sint k))). in_int_range (isum w)"
    and answer: "in_int_range (take_ends (map sint cp) (nat (sint k)))"
  shows "map_option sint (maxScore_unbounded cp k) = Some (take_ends (map sint cp) (nat (sint k)))"
proof -
  let ?K = "nat (sint k)"
  let ?M = "length cp - ?K"
  have K: "?K \<le> length cp" using k by linarith
  have M: "?M \<le> length cp" by simp
  obtain min_s where run: "maxScore_unbounded cp k = Some (sum_list cp - min_s)"
    and min_s: "sint min_s = Min ((\<lambda>j. sint (sum_list (window cp ?M j))) ` {..?K})"
    using maxScore_machine [OF k] by blast
  have "sint (sum_list (window cp ?M j)) = isum (window cp ?M j)" if "j \<le> ?K" for j
  proof -
    have "j + ?M \<le> length cp" using that K by linarith
    then have "window cp ?M j \<in> set (windows cp ?M)"
      unfolding set_windows [OF M] by blast
    with blocks show ?thesis by (intro sint_sum_list) blast
  qed
  then have "(\<lambda>j. sint (sum_list (window cp ?M j))) ` {..?K} = (\<lambda>j. isum (window cp ?M j)) ` {..?K}"
    by (intro image_cong) auto
  also have "\<dots> = {isum (window cp ?M j) | j. j \<le> ?K}" by (auto simp: image_iff)
  finally have min_exact: "sint min_s = Min {isum (window cp ?M j) | j. j \<le> ?K}"
    using min_s by (simp only:)
  have te: "take_ends (map sint cp) ?K = isum cp - sint min_s"
    unfolding min_exact by (rule take_ends_complement_isum [OF K])
  have "sum_list cp - min_s = (word_of_int (isum cp) :: int32) - word_of_int (sint min_s)"
    by (simp add: sum_list_word_of_isum [symmetric])
  also have "\<dots> = word_of_int (isum cp - sint min_s)" by (rule word_of_int_sub_int32)
  finally have "sint (sum_list cp - min_s) = isum cp - sint min_s"
    using answer te sint_int32_of_int by metis
  then show ?thesis using run te by simp
qed

section \<open>The frequency table\<close>

lemma cnt_incr_freq_of: "cnt_incr (freq_of w) x = freq_of (w @ [x])"
  by (rule ext) (simp add: cnt_incr_def freq_of_def)

lemma cnt_decr_erase_freq_of: "cnt_decr_erase (freq_of (y # w)) y = freq_of w"
proof (rule ext)
  fix x
  show "cnt_decr_erase (freq_of (y # w)) y x = freq_of w x"
  proof (cases "y \<in> set w")
    case True
    then have "count_list w y \<noteq> 0" by (simp add: count_list_0_iff)
    then show ?thesis using True
      by (simp add: cnt_decr_erase_def freq_of_def Let_def)
  next
    case False
    then have "count_list w y = 0" by (simp add: count_list_0_iff)
    then show ?thesis using False
      by (simp add: cnt_decr_erase_def freq_of_def Let_def)
  qed
qed

lemma dom_freq_of: "dom (freq_of w) = set w"
  by (auto simp: freq_of_def dom_def)

lemma cnt_size_freq_of: "cnt_size (freq_of w) = int (card (set w))"
  by (simp add: cnt_size_def dom_freq_of)

lemma cnt_size_eq_length_iff: "cnt_size (freq_of w) = int (length w) \<longleftrightarrow> distinct w"
  using card_distinct [of w] distinct_card [of w] by (auto simp: cnt_size_freq_of)

lemma freq_of_Nil: "freq_of [] = Map.empty"
  by (simp add: freq_of_def)

section \<open>64-bit sums of 32-bit values do not wrap\<close>

lemma isum_snoc: "isum (w @ [x]) = isum w + sint x"
  by (simp add: isum_def)

lemma isum_Cons: "isum (x # w) = sint x + isum w"
  by (simp add: isum_def)

lemma sint_int32_bounds: "- (2 ^ 31) \<le> sint (x :: int32)" "sint (x :: int32) < 2 ^ 31"
  using sint_ge [of x] sint_lt [of x] by simp_all

lemma isum_bounds:
  "- (2 ^ 31 * int (length w)) \<le> isum w \<and> isum w \<le> 2 ^ 31 * int (length w)"
proof (induction w)
  case Nil
  show ?case by (simp add: isum_def)
next
  case (Cons x w)
  have "- (2 ^ 31) \<le> sint x" "sint x \<le> 2 ^ 31"
    using sint_int32_bounds [of x] by linarith+
  with Cons show ?case by (simp add: isum_Cons algebra_simps)
qed

lemma sint_int64_of_int:
  "- (2 ^ 63) \<le> z \<Longrightarrow> z < 2 ^ 63 \<Longrightarrow> sint (word_of_int z :: int64) = z"
  by (simp add: signed_take_bit_int_eq_self sint_sbintrunc')

lemma sint_int64_isum:
  assumes "int (length w) < 2 ^ 31"
  shows "sint (word_of_int (isum w) :: int64) = isum w"
proof -
  have "2 ^ 31 * int (length w) \<le> (2 ^ 31 * 2 ^ 31 :: int)"
    using assms by (intro mult_left_mono) simp_all
  then have "- (2 ^ 63) \<le> isum w" "isum w < 2 ^ 63"
    using isum_bounds [of w] by simp_all
  then show ?thesis by (rule sint_int64_of_int)
qed

section \<open>The loop of maximumSubarraySum_unbounded\<close>

lemma window_length: "j + k \<le> length xs \<Longrightarrow> length (window xs k j) = k"
  by (simp add: window_def)

lemma distinct_sums_upto_Suc:
  fixes f :: "nat \<Rightarrow> int"
  shows "{f i | i. i < Suc j \<and> P i} = (if P j then insert (f j) {f i | i. i < j \<and> P i} else {f i | i. i < j \<and> P i})"
  by (auto simp: less_Suc_eq)

lemma Max_insert0_insert:
  fixes A :: "int set"
  assumes "finite A"
  shows "Max (insert 0 (insert x A)) = max x (Max (insert 0 A))"
proof -
  have "finite (insert 0 A)" "insert 0 A \<noteq> {}" using assms by simp_all
  then have "Max (insert x (insert 0 A)) = max x (Max (insert 0 A))" by (rule Max_insert)
  moreover have "insert 0 (insert x A) = insert x (insert 0 A)" by (rule insert_commute)
  ultimately show ?thesis by (simp only:)
qed

lemma finite_sums_upto:
  fixes f :: "nat \<Rightarrow> int"
  shows "finite {f i | i. i < j \<and> P i}"
  by simp

lemma maximumSubarraySum_slide_inv:
  fixes nums :: "int32 list" and k :: int32
  assumes k: "1 \<le> sint k" "sint k \<le> int (length nums)"
  defines "K \<equiv> nat (sint k)"
  defines "D \<equiv> \<lambda>j. {isum (window nums K i) | i. i < j \<and> distinct (window nums K i)}"
  shows "j + K \<le> length nums + 1 \<Longrightarrow> s = word_of_int (isum (window nums (K - 1) j)) \<Longrightarrow>
    cnt = freq_of (window nums (K - 1) j) \<Longrightarrow> sint ans = Max (insert 0 (D j)) \<Longrightarrow>
    \<exists>r. maximumSubarraySum_loop_unbounded nums k (int j + sint k - 1) ans s cnt = Some r
       \<and> sint r = Max (insert 0 (D (length nums + 1 - K)))"
proof (induction "length nums + 1 - K - j" arbitrary: j s cnt ans)
  case 0
  then have "j = length nums + 1 - K" using k K_def by linarith
  moreover have "\<not> int j + sint k - 1 < int (length nums)" using 0 k K_def by linarith
  ultimately show ?case using 0
    by (subst maximumSubarraySum_loop_unbounded.simps) simp
next
  case (Suc d)
  let ?i = "int j + sint k - 1"
  have lt: "?i < int (length nums)" using Suc.hyps(2) k K_def by linarith
  have jk: "j + (K - 1) < length nums" using lt k K_def by linarith
  have K: "Suc (K - 1) = K" using k K_def by simp
  have Kint: "int K = sint k" using k K_def by simp
  have ixi: "index_at nums ?i = Some (nums ! (j + (K - 1)))"
  proof -
    have "nat ?i = j + (K - 1)" using k K_def by linarith
    then show ?thesis using lt k by (simp add: index_at_def)
  qed
  have left: "?i - sint k + 1 = int j" by simp
  have nleft: "\<not> int j < 0" by simp
  have ixl: "index_at nums (int j) = Some (nums ! j)"
    using jk by (simp add: index_at_def)
  let ?x = "nums ! (j + (K - 1))"
  let ?s1 = "s + scast ?x"
  let ?cnt1 = "cnt_incr cnt ?x"
  let ?a1 = "if cnt_size ?cnt1 = sint k then smax ans ?s1 else ans"
  let ?s2 = "?s1 - scast (nums ! j)"
  let ?cnt2 = "cnt_decr_erase ?cnt1 (nums ! j)"
  have slide: "window nums K j = window nums (K - 1) j @ [?x]"
      "window nums K j = nums ! j # window nums (K - 1) (Suc j)"
    using window_slide [OF jk] K by simp_all
  have len: "length (window nums K j) = K"
    using jk K by (intro window_length) linarith
  have s1: "?s1 = word_of_int (isum (window nums K j))"
    by (subst slide(1)) (simp add: Suc.prems(2) isum_snoc)
  have s2: "?s2 = word_of_int (isum (window nums (K - 1) (Suc j)))"
    unfolding s1 by (subst slide(2)) (simp add: isum_Cons)
  have cnt1: "?cnt1 = freq_of (window nums K j)"
    by (subst slide(1)) (simp add: Suc.prems(3) cnt_incr_freq_of)
  have cnt2: "?cnt2 = freq_of (window nums (K - 1) (Suc j))"
    unfolding cnt1 by (subst slide(2)) (rule cnt_decr_erase_freq_of)
  have full: "cnt_size ?cnt1 = sint k \<longleftrightarrow> distinct (window nums K j)"
    unfolding cnt1 using cnt_size_eq_length_iff [of "window nums K j"] len Kint by simp
  have "int (length (window nums K j)) < 2 ^ 31"
    unfolding len Kint using sint_int32_bounds(2) [of k] .
  then have sint_s1: "sint ?s1 = isum (window nums K j)"
    unfolding s1 by (rule sint_int64_isum)
  have a1: "sint ?a1 = Max (insert 0 (D (Suc j)))"
  proof (cases "distinct (window nums K j)")
    case True
    have "D (Suc j) = insert (isum (window nums K j)) (D j)"
      unfolding D_def distinct_sums_upto_Suc using True by simp
    moreover have "finite (D j)" unfolding D_def by (rule finite_sums_upto)
    ultimately have "Max (insert 0 (D (Suc j))) = max (isum (window nums K j)) (Max (insert 0 (D j)))"
      by (simp only: Max_insert0_insert)
    also have "\<dots> = max (sint ans) (sint ?s1)"
      by (simp only: sint_s1 Suc.prems(4) max.commute)
    also have "\<dots> = sint (smax ans ?s1)" by (simp only: sint_smax)
    finally have "sint (smax ans ?s1) = Max (insert 0 (D (Suc j)))" by (rule sym)
    moreover have "cnt_size ?cnt1 = sint k" using True full by blast
    ultimately show ?thesis by (simp only: if_True simp_thms)
  next
    case False
    have "D (Suc j) = D j"
      unfolding D_def distinct_sums_upto_Suc using False by simp
    then have "sint ans = Max (insert 0 (D (Suc j)))" using Suc.prems(4) by (simp only:)
    moreover have "cnt_size ?cnt1 \<noteq> sint k" using False full by blast
    ultimately show ?thesis by (simp only: if_False simp_thms)
  qed
  have d: "d = length nums + 1 - K - Suc j" using Suc.hyps(2) by linarith
  have bound: "Suc j + K \<le> length nums + 1" using jk k K_def by linarith
  have "\<exists>r. maximumSubarraySum_loop_unbounded nums k (int (Suc j) + sint k - 1) ?a1 ?s2 ?cnt2 = Some r
       \<and> sint r = Max (insert 0 (D (length nums + 1 - K)))"
    by (rule Suc.hyps(1) [OF d bound s2 cnt2 a1])
  moreover have next_i: "int (Suc j) + sint k - 1 = ?i + 1" by simp
  ultimately have rec: "\<exists>r. maximumSubarraySum_loop_unbounded nums k (?i + 1) ?a1 ?s2 ?cnt2 = Some r
       \<and> sint r = Max (insert 0 (D (length nums + 1 - K)))"
    by (simp only: next_i)
  show ?case
    by (subst maximumSubarraySum_loop_unbounded.simps)
      (simp only: lt if_True ixi option.simps Let_def left nleft if_False ixl rec)
qed

lemma maximumSubarraySum_fill_inv:
  fixes nums :: "int32 list" and k :: int32
  assumes k: "1 \<le> sint k" "sint k \<le> int (length nums)"
  defines "K \<equiv> nat (sint k)"
  defines "D \<equiv> \<lambda>j. {isum (window nums K i) | i. i < j \<and> distinct (window nums K i)}"
  shows "0 \<le> i \<Longrightarrow> i \<le> sint k - 1 \<Longrightarrow> s = word_of_int (isum (window nums (nat i) 0)) \<Longrightarrow>
    cnt = freq_of (window nums (nat i) 0) \<Longrightarrow>
    \<exists>r. maximumSubarraySum_loop_unbounded nums k i 0 s cnt = Some r
       \<and> sint r = Max (insert 0 (D (length nums + 1 - K)))"
proof (induction "nat (sint k - 1 - i)" arbitrary: i s cnt)
  case 0
  then have i: "i = int 0 + sint k - 1" by simp
  have ni: "nat i = K - 1" using i K_def by simp
  have D0: "sint (0 :: int64) = Max (insert 0 (D 0))" by (simp add: D_def)
  show ?case
    unfolding i D_def K_def
    using k 0 ni D0 by (intro maximumSubarraySum_slide_inv) (simp_all add: K_def D_def)
next
  case (Suc d)
  then have lt: "i < sint k - 1" by linarith
  have inb: "nat i < length nums" using lt k Suc.prems by linarith
  have ilt: "i < int (length nums)" using lt k by linarith
  have ixi: "index_at nums i = Some (nums ! nat i)"
    using Suc.prems ilt by (simp add: index_at_def)
  have left: "i - sint k + 1 < 0" using lt by simp
  let ?s1 = "s + scast (nums ! nat i)"
  let ?cnt1 = "cnt_incr cnt (nums ! nat i)"
  have nat_suc: "nat (i + 1) = Suc (nat i)" using Suc.prems by simp
  have s1: "?s1 = word_of_int (isum (window nums (nat (i + 1)) 0))"
    using inb Suc.prems by (simp add: nat_suc window_admit isum_snoc)
  have cnt1: "?cnt1 = freq_of (window nums (nat (i + 1)) 0)"
    using inb Suc.prems by (simp add: nat_suc window_admit cnt_incr_freq_of)
  have d: "d = nat (sint k - 1 - (i + 1))" using Suc.hyps(2) by linarith
  have i1: "0 \<le> i + 1" "i + 1 \<le> sint k - 1" using Suc.prems lt by linarith+
  have rec: "\<exists>r. maximumSubarraySum_loop_unbounded nums k (i + 1) 0 ?s1 ?cnt1 = Some r
       \<and> sint r = Max (insert 0 (D (length nums + 1 - K)))"
    by (rule Suc.hyps(1) [OF d i1 s1 cnt1])
  show ?case
    by (subst maximumSubarraySum_loop_unbounded.simps)
      (simp only: ilt if_True ixi option.simps Let_def left rec)
qed

lemma maximumSubarraySum_result:
  assumes k: "1 \<le> sint k" "sint k \<le> int (length nums)"
  shows "\<exists>r. maximumSubarraySum_unbounded nums k = Some r
     \<and> sint r = Max (insert 0 (distinct_window_sums nums (nat (sint k))))"
proof -
  let ?K = "nat (sint k)"
  have K: "?K \<le> length nums" using k by linarith
  have "{isum (window nums ?K i) | i. i < length nums + 1 - ?K \<and> distinct (window nums ?K i)}
      = distinct_window_sums nums ?K"
    unfolding distinct_window_sums_def using K by (intro Collect_cong) (metis Suc_eq_plus1 less_diff_conv less_Suc_eq_le)
  moreover have "\<exists>r. maximumSubarraySum_loop_unbounded nums k 0 0 0 Map.empty = Some r
       \<and> sint r = Max (insert 0 {isum (window nums ?K i) | i. i < length nums + 1 - ?K \<and> distinct (window nums ?K i)})"
    using k by (intro maximumSubarraySum_fill_inv) (simp_all add: window_def isum_def freq_of_Nil)
  ultimately show ?thesis by (simp only: maximumSubarraySum_unbounded_def)
qed

lemma finite_distinct_window_sums: "finite (distinct_window_sums nums k)"
proof -
  have "distinct_window_sums nums k \<subseteq> (\<lambda>j. isum (window nums k j)) ` {..length nums}"
    by (auto simp: distinct_window_sums_def)
  then show ?thesis by (rule finite_subset) simp
qed

lemma Max_insert0_eq_max:
  "Max (insert 0 (distinct_window_sums nums k)) = max 0 (max_distinct_window_sum nums k)"
  using finite_distinct_window_sums [of nums k]
  by (simp add: max_distinct_window_sum_def)

lemma maximumSubarraySum_exact:
  assumes "1 \<le> sint k" "sint k \<le> int (length nums)"
  shows "map_option sint (maximumSubarraySum_unbounded nums k)
    = Some (max 0 (max_distinct_window_sum nums (nat (sint k))))"
  using maximumSubarraySum_result [OF assms] by (auto simp: Max_insert0_eq_max)

section \<open>The loop of findMaxAverage_unbounded\<close>

lemma Max_insert_lessThan_Suc:
  fixes f :: "nat \<Rightarrow> int"
  shows "Max (insert b (f ` {..<Suc j})) = max (Max (insert b (f ` {..<j}))) (f j)"
proof -
  have "insert b (f ` {..<Suc j}) = insert (f j) (insert b (f ` {..<j}))"
    by (auto simp: lessThan_Suc)
  then show ?thesis by (simp add: max.commute)
qed

lemma findMaxAverage_slide_inv:
  fixes nums :: "int32 list" and k :: int32
  assumes k: "1 \<le> sint k" "sint k \<le> int (length nums)"
  defines "K \<equiv> nat (sint k)"
  defines "ws \<equiv> \<lambda>j. sint (sum_list (window nums K j))"
  shows "j + K \<le> length nums + 1 \<Longrightarrow> s = sum_list (window nums (K - 1) j) \<Longrightarrow>
    sint max_s = Max (insert b (ws ` {..<j})) \<Longrightarrow>
    \<exists>r. findMaxAverage_loop_unbounded nums k (int j + sint k - 1) max_s s = Some r
      \<and> sint r = Max (insert b (ws ` {..<length nums + 1 - K}))"
proof (induction "length nums + 1 - K - j" arbitrary: j s max_s)
  case 0
  then have "j = length nums + 1 - K" using k K_def by linarith
  moreover have "\<not> int j + sint k - 1 < int (length nums)" using 0 k K_def by linarith
  ultimately show ?case using 0
    by (subst findMaxAverage_loop_unbounded.simps) simp
next
  case (Suc d)
  let ?i = "int j + sint k - 1"
  have lt: "?i < int (length nums)" using Suc.hyps(2) k K_def by linarith
  have jk: "j + (K - 1) < length nums" using lt k K_def by linarith
  have K: "Suc (K - 1) = K" using k K_def by simp
  have ixi: "index_at nums ?i = Some (nums ! (j + (K - 1)))"
  proof -
    have "nat ?i = j + (K - 1)" using k K_def by linarith
    then show ?thesis using lt k by (simp add: index_at_def)
  qed
  have nfill: "\<not> ?i < sint k - 1" by simp
  have left: "?i - sint k + 1 = int j" by simp
  have ixl: "index_at nums (int j) = Some (nums ! j)"
    using jk by (simp add: index_at_def)
  let ?s1 = "s + nums ! (j + (K - 1))"
  let ?m1 = "smax max_s ?s1"
  let ?s2 = "?s1 - nums ! j"
  have slide: "window nums K j = window nums (K - 1) j @ [nums ! (j + (K - 1))]"
      "window nums K j = nums ! j # window nums (K - 1) (Suc j)"
    using window_slide [OF jk] K by simp_all
  have s1: "?s1 = sum_list (window nums K j)"
    by (subst slide(1)) (simp add: Suc.prems(2))
  have s2: "?s2 = sum_list (window nums (K - 1) (Suc j))"
  proof -
    have "?s1 = sum_list (nums ! j # window nums (K - 1) (Suc j))"
      unfolding s1 by (subst slide(2)) simp
    then show ?thesis by simp
  qed
  have m1: "sint ?m1 = Max (insert b (ws ` {..<Suc j}))"
    unfolding Max_insert_lessThan_Suc sint_smax Suc.prems(3) s1 ws_def by simp
  have d: "d = length nums + 1 - K - Suc j" using Suc.hyps(2) by linarith
  have bound: "Suc j + K \<le> length nums + 1" using jk k K_def by linarith
  have "\<exists>r. findMaxAverage_loop_unbounded nums k (int (Suc j) + sint k - 1) ?m1 ?s2 = Some r
      \<and> sint r = Max (insert b (ws ` {..<length nums + 1 - K}))"
    by (rule Suc.hyps(1) [OF d bound s2 m1])
  moreover have next_i: "int (Suc j) + sint k - 1 = ?i + 1" by simp
  ultimately have rec: "\<exists>r. findMaxAverage_loop_unbounded nums k (?i + 1) ?m1 ?s2 = Some r
      \<and> sint r = Max (insert b (ws ` {..<length nums + 1 - K}))"
    by (simp only: next_i)
  show ?case
    by (subst findMaxAverage_loop_unbounded.simps)
      (simp only: lt if_True ixi option.simps Let_def nfill if_False left ixl rec)
qed

lemma findMaxAverage_fill_inv:
  fixes nums :: "int32 list" and k :: int32
  assumes k: "1 \<le> sint k" "sint k \<le> int (length nums)"
  defines "K \<equiv> nat (sint k)"
  defines "ws \<equiv> \<lambda>j. sint (sum_list (window nums K j))"
  shows "0 \<le> i \<Longrightarrow> i \<le> sint k - 1 \<Longrightarrow> s = sum_list (window nums (nat i) 0) \<Longrightarrow>
    \<exists>r. findMaxAverage_loop_unbounded nums k i max_s s = Some r
      \<and> sint r = Max (insert (sint max_s) (ws ` {..<length nums + 1 - K}))"
proof (induction "nat (sint k - 1 - i)" arbitrary: i s)
  case 0
  then have i: "i = int 0 + sint k - 1" by simp
  have ni: "nat i = K - 1" using i K_def by simp
  show ?case
    unfolding i ws_def K_def using k 0 ni
    by (intro findMaxAverage_slide_inv) (simp_all add: K_def)
next
  case (Suc d)
  then have lt: "i < sint k - 1" by linarith
  have inb: "nat i < length nums" using lt k Suc.prems by linarith
  have ilt: "i < int (length nums)" using lt k by linarith
  have ixi: "index_at nums i = Some (nums ! nat i)"
    using Suc.prems ilt by (simp add: index_at_def)
  let ?s1 = "s + nums ! nat i"
  have nat_suc: "nat (i + 1) = Suc (nat i)" using Suc.prems by simp
  have s1: "?s1 = sum_list (window nums (nat (i + 1)) 0)"
    using inb Suc.prems by (simp add: nat_suc window_admit)
  have d: "d = nat (sint k - 1 - (i + 1))" using Suc.hyps(2) by linarith
  have i1: "0 \<le> i + 1" "i + 1 \<le> sint k - 1" using Suc.prems lt by linarith+
  have rec: "\<exists>r. findMaxAverage_loop_unbounded nums k (i + 1) max_s ?s1 = Some r
      \<and> sint r = Max (insert (sint max_s) (ws ` {..<length nums + 1 - K}))"
    by (rule Suc.hyps(1) [OF d i1 s1])
  show ?case
    by (subst findMaxAverage_loop_unbounded.simps)
      (simp only: ilt if_True ixi option.simps Let_def lt rec)
qed

lemma sint_INT_MIN: "sint INT_MIN = - (2 ^ 31)"
  by (simp add: INT_MIN_def)

lemma Max_insert_lower_bound:
  fixes A :: "int set"
  assumes "finite A" "A \<noteq> {}" "\<forall>x\<in>A. b \<le> x"
  shows "Max (insert b A) = Max A"
proof -
  have "b \<le> Max A" using assms by (meson Max_in)
  then show ?thesis using assms by (simp add: max_def)
qed

lemma findMaxAverage_machine:
  assumes k: "1 \<le> sint k" "sint k \<le> int (length nums)"
  shows "\<exists>max_s :: int32. findMaxAverage_unbounded fdiv nums k = Some (fdiv (sint max_s) (sint k))
    \<and> sint max_s = Max {sint (sum_list (window nums (nat (sint k)) j)) | j.
          j + nat (sint k) \<le> length nums}"
proof -
  let ?K = "nat (sint k)"
  let ?ws = "\<lambda>j. sint (sum_list (window nums ?K j))"
  have K: "?K \<le> length nums" using k by linarith
  have "\<exists>r. findMaxAverage_loop_unbounded nums k 0 INT_MIN 0 = Some r
      \<and> sint r = Max (insert (sint INT_MIN) (?ws ` {..<length nums + 1 - ?K}))"
    using k by (intro findMaxAverage_fill_inv) (simp_all add: window_def)
  then obtain r where r: "findMaxAverage_loop_unbounded nums k 0 INT_MIN 0 = Some r"
    and mr: "sint r = Max (insert (sint INT_MIN) (?ws ` {..length nums - ?K}))"
    unfolding lessThan_windows [OF K] by blast
  have "\<forall>x \<in> ?ws ` {..length nums - ?K}. sint INT_MIN \<le> x"
    using sint_int32_bounds(1) by (auto simp: sint_INT_MIN)
  then have "Max (insert (sint INT_MIN) (?ws ` {..length nums - ?K})) = Max (?ws ` {..length nums - ?K})"
    by (intro Max_insert_lower_bound) auto
  then have "sint r = Max (?ws ` {..length nums - ?K})"
    using mr by (simp only:)
  moreover have "?ws ` {..length nums - ?K} = {?ws j | j. j + ?K \<le> length nums}"
    using window_image_eq [OF K, of "\<lambda>w. sint (sum_list w)"] by simp
  ultimately have "sint r = Max {?ws j | j. j + ?K \<le> length nums}"
    by (simp only:)
  moreover have "findMaxAverage_unbounded fdiv nums k = Some (fdiv (sint r) (sint k))"
    by (simp add: findMaxAverage_unbounded_def r)
  ultimately show ?thesis by blast
qed

lemma findMaxAverage_exact:
  assumes k: "1 \<le> sint k" "sint k \<le> int (length nums)"
    and sums: "\<forall>w \<in> set (windows nums (nat (sint k))). in_int_range (isum w)"
  shows "findMaxAverage_unbounded fdiv nums k =
    Some (fdiv (Max {isum (window nums (nat (sint k)) j) | j. j + nat (sint k) \<le> length nums})
            (sint k))"
proof -
  let ?K = "nat (sint k)"
  have K: "?K \<le> length nums" using k by linarith
  obtain max_s :: int32 where run: "findMaxAverage_unbounded fdiv nums k = Some (fdiv (sint max_s) (sint k))"
    and m: "sint max_s = Max {sint (sum_list (window nums ?K j)) | j. j + ?K \<le> length nums}"
    using findMaxAverage_machine [OF k] by blast
  have "sint (sum_list (window nums ?K j)) = isum (window nums ?K j)"
    if "j + ?K \<le> length nums" for j
  proof -
    have "window nums ?K j \<in> set (windows nums ?K)"
      unfolding set_windows [OF K] using that by blast
    with sums show ?thesis by (intro sint_sum_list) blast
  qed
  then have "{sint (sum_list (window nums ?K j)) | j. j + ?K \<le> length nums}
      = {isum (window nums ?K j) | j. j + ?K \<le> length nums}"
    by (intro Collect_cong) (metis (no_types, lifting))
  then show ?thesis using run m by (simp only:)
qed

lemma exact_div_mono:
  assumes "0 < k" "a \<le> b"
  shows "exact_div a k \<le> exact_div b k"
  using assms by (simp add: exact_div_def divide_right_mono)

lemma finite_window_values: "finite {f (window xs k j) | j. j + k \<le> length xs}"
proof -
  have "{f (window xs k j) | j. j + k \<le> length xs} \<subseteq> (\<lambda>j. f (window xs k j)) ` {..length xs}"
    by auto
  then show ?thesis by (rule finite_subset) simp
qed

lemma max_mean_is_mean_of_max:
  assumes "0 < k" "K \<le> length xs"
  shows "Max {exact_div (isum (window xs K j)) k | j. j + K \<le> length xs}
    = exact_div (Max {isum (window xs K j) | j. j + K \<le> length xs}) k"
proof -
  let ?A = "{isum (window xs K j) | j. j + K \<le> length xs}"
  have fin: "finite ?A" by (rule finite_window_values)
  have ne: "?A \<noteq> {}" using assms(2) by (auto intro: exI [of _ 0])
  have "mono (\<lambda>a. exact_div a k)"
    using assms(1) by (intro monoI exact_div_mono)
  then have "exact_div (Max ?A) k = Max ((\<lambda>a. exact_div a k) ` ?A)"
    using fin ne by (rule mono_Max_commute)
  moreover have "(\<lambda>a. exact_div a k) ` ?A = {exact_div (isum (window xs K j)) k | j. j + K \<le> length xs}"
    by (auto simp: image_iff)
  ultimately show ?thesis by (simp only:)
qed

section \<open>The brute-force definitions and the windows as a set\<close>

lemma distinct_window_sums_code:
  assumes "k \<le> length nums"
  shows "distinct_window_sums nums k = set (map isum (filter distinct (windows nums k)))"
proof -
  have "set (map isum (filter distinct (windows nums k)))
      = isum ` {w \<in> set (windows nums k). distinct w}" by simp
  also have "\<dots> = isum ` {w \<in> {window nums k j | j. j + k \<le> length nums}. distinct w}"
    by (simp only: set_windows [OF assms])
  also have "\<dots> = distinct_window_sums nums k"
    unfolding distinct_window_sums_def by blast
  finally show ?thesis by (rule sym)
qed

lemma bf_maximumSubarraySum_eq:
  assumes "k \<le> length nums"
  shows "bf_maximumSubarraySum nums k = max_distinct_window_sum nums k"
  unfolding bf_maximumSubarraySum_def max_distinct_window_sum_def Let_def
    distinct_window_sums_code [OF assms]
  by (simp only: set_empty)

lemma bf_maxVowels_eq:
  assumes "k \<le> length s"
  shows "bf_maxVowels s k = Max {count_vowels (window s k j) | j. j + k \<le> length s}"
proof -
  have "set (map count_vowels (windows s k)) = count_vowels ` {window s k j | j. j + k \<le> length s}"
    by (simp add: set_windows [OF assms])
  also have "\<dots> = {count_vowels (window s k j) | j. j + k \<le> length s}" by blast
  finally show ?thesis by (simp only: bf_maxVowels_def)
qed

section \<open>The boundary window sizes: the whole sequence, and single elements\<close>

lemma whole_window_values:
  "{f (window xs (length xs) j) | j. j + length xs \<le> length xs} = {f xs}"
  by (auto simp: window_def)

lemma windows_whole: "windows xs (length xs) = [xs]"
  by (simp add: windows_def window_def)

lemma singleton_window: "j < length xs \<Longrightarrow> window xs (Suc 0) j = [xs ! j]"
proof -
  assume "j < length xs"
  then have "drop j xs = xs ! j # drop (Suc j) xs" by (simp add: Cons_nth_drop_Suc)
  then show ?thesis by (simp add: window_def)
qed

lemma singleton_window_values:
  "{f (window xs (Suc 0) j) | j. j + Suc 0 \<le> length xs} = (\<lambda>x. f [x]) ` set xs"
proof -
  have "{f (window xs (Suc 0) j) | j. j + Suc 0 \<le> length xs} = {f [xs ! j] | j. j < length xs}"
  proof (rule Collect_cong)
    fix y
    show "(\<exists>j. y = f (window xs (Suc 0) j) \<and> j + Suc 0 \<le> length xs)
      \<longleftrightarrow> (\<exists>j. y = f [xs ! j] \<and> j < length xs)"
    proof
      assume "\<exists>j. y = f (window xs (Suc 0) j) \<and> j + Suc 0 \<le> length xs"
      then obtain j where j: "y = f (window xs (Suc 0) j)" "j + Suc 0 \<le> length xs" by blast
      then have "j < length xs" by simp
      with j(1) have "y = f [xs ! j] \<and> j < length xs" by (simp only: singleton_window simp_thms)
      then show "\<exists>j. y = f [xs ! j] \<and> j < length xs" by blast
    next
      assume "\<exists>j. y = f [xs ! j] \<and> j < length xs"
      then obtain j where j: "y = f [xs ! j]" "j < length xs" by blast
      then have "y = f (window xs (Suc 0) j)" "j + Suc 0 \<le> length xs"
        by (simp_all add: singleton_window)
      then show "\<exists>j. y = f (window xs (Suc 0) j) \<and> j + Suc 0 \<le> length xs" by blast
    qed
  qed
  also have "\<dots> = (\<lambda>x. f [x]) ` {xs ! j | j. j < length xs}" by blast
  also have "{xs ! j | j. j < length xs} = set xs" by (simp only: set_conv_nth)
  finally show ?thesis .
qed

lemma windows_singletons: "windows xs (Suc 0) = map (\<lambda>x. [x]) xs"
proof (rule nth_equalityI)
  show "length (windows xs (Suc 0)) = length (map (\<lambda>x. [x]) xs)"
    by (simp add: windows_def)
next
  fix i assume "i < length (windows xs (Suc 0))"
  then have i: "i < length xs" by (simp add: windows_def)
  then have "windows xs (Suc 0) ! i = window xs (Suc 0) i" by (simp add: windows_def)
  also have "\<dots> = [xs ! i]" by (rule singleton_window [OF i])
  also have "\<dots> = map (\<lambda>x. [x]) xs ! i" using i by simp
  finally show "windows xs (Suc 0) ! i = map (\<lambda>x. [x]) xs ! i" .
qed

lemma Max_indicator:
  fixes g :: "'a \<Rightarrow> int"
  assumes "finite A" "A \<noteq> {}" "\<forall>x\<in>A. g x = (if P x then 1 else 0)"
  shows "Max (g ` A) = (if \<exists>x\<in>A. P x then 1 else 0)"
proof (cases "\<exists>x\<in>A. P x")
  case True
  then obtain a where a: "a \<in> A" "P a" by blast
  have "Max (g ` A) = 1"
  proof (rule Max_eqI)
    show "finite (g ` A)" using assms(1) by simp
    show "y \<le> 1" if "y \<in> g ` A" for y using that assms(3) by auto
    show "1 \<in> g ` A" using a assms(3) by force
  qed
  with True show ?thesis by simp
next
  case False
  then have "g ` A = {0}" using assms(2,3) by auto
  with False show ?thesis by simp
qed

lemma Min_indicator:
  fixes g :: "'a \<Rightarrow> int"
  assumes "finite A" "A \<noteq> {}" "\<forall>x\<in>A. g x = (if P x then 1 else 0)"
  shows "Min (g ` A) = (if \<forall>x\<in>A. P x then 1 else 0)"
proof (cases "\<forall>x\<in>A. P x")
  case True
  then have "g ` A = {1}" using assms(2,3) by auto
  with True show ?thesis by simp
next
  case False
  then obtain a where a: "a \<in> A" "\<not> P a" by blast
  have "Min (g ` A) = 0"
  proof (rule Min_eqI)
    show "finite (g ` A)" using assms(1) by simp
    show "0 \<le> y" if "y \<in> g ` A" for y using that assms(3) by auto
    show "0 \<in> g ` A" using a assms(3) by force
  qed
  with False show ?thesis by simp
qed

subsection \<open>\<open>k = n\<close>\<close>

lemma maxVowels_whole:
  assumes "s \<noteq> []" "sint k = int (length s)"
  shows "maxVowels_unbounded s k = Some (count_vowels s)"
proof -
  have k: "1 \<le> sint k" "sint k \<le> int (length s)" "nat (sint k) = length s"
    using assms by (simp_all add: Suc_leI)
  show ?thesis
    using maxVowels_result [OF k(1,2)] unfolding k(3) whole_window_values by simp
qed

lemma minimumRecolors_whole:
  assumes "s \<noteq> []" "sint k = int (length s)"
  shows "minimumRecolors_unbounded s k = Some (count_W s)"
proof -
  have k: "1 \<le> sint k" "sint k \<le> int (length s)" "nat (sint k) = length s"
    using assms by (simp_all add: Suc_leI)
  show ?thesis
    using minimumRecolors_result [OF k(1,2)] unfolding k(3) whole_window_values by simp
qed

lemma numOfSubarrays_whole:
  assumes "xs \<noteq> []" "sint k = int (length xs)"
  shows "numOfSubarrays_unbounded xs k threshold
    = Some (if sint (k * threshold) \<le> sint (sum_list xs) then 1 else 0)"
proof -
  have k: "1 \<le> sint k" "sint k \<le> int (length xs)" "nat (sint k) = length xs"
    using assms by (simp_all add: Suc_leI)
  show ?thesis
    using numOfSubarrays_machine [OF k(1,2), of threshold] unfolding k(3) windows_whole by simp
qed

lemma sint_eq_0_int32: "sint (r :: int32) = 0 \<Longrightarrow> r = 0"
  by (simp add: signed_eq_0_iff)

lemma maxScore_whole:
  assumes "sint k = int (length xs)"
  shows "maxScore_unbounded xs k = Some (sum_list xs)"
proof -
  have k: "0 \<le> sint k" "sint k \<le> int (length xs)" "nat (sint k) = length xs"
    using assms by simp_all
  obtain min_s where run: "maxScore_unbounded xs k = Some (sum_list xs - min_s)"
    and m: "sint min_s = Min ((\<lambda>j. sint (sum_list (window xs (length xs - nat (sint k)) j)))
          ` {..nat (sint k)})"
    using maxScore_machine [OF k(1,2)] by blast
  have "sint min_s = 0" using m unfolding k(3) by (simp add: window_def)
  then have "min_s = 0" by (rule sint_eq_0_int32)
  with run show ?thesis by simp
qed

lemma findMaxAverage_whole:
  assumes "xs \<noteq> []" "sint k = int (length xs)"
  shows "findMaxAverage_unbounded fdiv xs k = Some (fdiv (sint (sum_list xs)) (sint k))"
proof -
  have k: "1 \<le> sint k" "sint k \<le> int (length xs)" "nat (sint k) = length xs"
    using assms by (simp_all add: Suc_leI)
  show ?thesis
    using findMaxAverage_machine [OF k(1,2), of fdiv] unfolding k(3) whole_window_values by (auto simp: window_def)
qed

lemma distinct_window_sums_whole:
  "distinct_window_sums xs (length xs) = (if distinct xs then {isum xs} else {})"
  by (auto simp: distinct_window_sums_def window_def)

lemma maximumSubarraySum_whole:
  assumes "xs \<noteq> []" "sint k = int (length xs)"
  shows "map_option sint (maximumSubarraySum_unbounded xs k)
    = Some (if distinct xs then max 0 (isum xs) else 0)"
proof -
  have k: "1 \<le> sint k" "sint k \<le> int (length xs)" "nat (sint k) = length xs"
    using assms by (simp_all add: Suc_leI)
  have "max_distinct_window_sum xs (length xs) = (if distinct xs then isum xs else 0)"
    by (simp add: max_distinct_window_sum_def distinct_window_sums_whole)
  then have "max 0 (max_distinct_window_sum xs (length xs))
      = (if distinct xs then max 0 (isum xs) else 0)" by simp
  then show ?thesis
    using maximumSubarraySum_exact [OF k(1,2)] unfolding k(3) by (simp only:)
qed

subsection \<open>\<open>k = 1\<close>\<close>

lemma one_le_length: "xs \<noteq> [] \<Longrightarrow> sint (1 :: int32) \<le> int (length xs)"
  by (cases xs) simp_all

lemma one_le_one: "1 \<le> sint (1 :: int32)"
  by simp

lemma nat_sint_one: "nat (sint (1 :: int32)) = Suc 0"
  by simp

lemma count_vowels_single: "count_vowels [c] = (if is_vowel c then 1 else 0)"
  by (simp add: count_vowels_def)

lemma count_W_single: "count_W [c] = (if c = CHR ''W'' then 1 else 0)"
  by (simp add: count_W_def)

lemma maxVowels_single:
  assumes "s \<noteq> []"
  shows "maxVowels_unbounded s 1 = Some (if \<exists>c\<in>set s. is_vowel c then 1 else 0)"
proof -
  have "Max ((\<lambda>c. count_vowels [c]) ` set s) = (if \<exists>c\<in>set s. is_vowel c then 1 else 0)"
    using assms by (intro Max_indicator) (simp_all add: count_vowels_single)
  moreover have "maxVowels_unbounded s 1 = Some (Max ((\<lambda>c. count_vowels [c]) ` set s))"
    using maxVowels_result [OF one_le_one one_le_length [OF assms]]
    by (simp only: nat_sint_one singleton_window_values)
  ultimately show ?thesis by (simp only:)
qed

lemma minimumRecolors_single:
  assumes "s \<noteq> []"
  shows "minimumRecolors_unbounded s 1 = Some (if \<forall>c\<in>set s. c = CHR ''W'' then 1 else 0)"
proof -
  have "Min ((\<lambda>c. count_W [c]) ` set s) = (if \<forall>c\<in>set s. c = CHR ''W'' then 1 else 0)"
    using assms by (intro Min_indicator) (simp_all add: count_W_single)
  moreover have "minimumRecolors_unbounded s 1 = Some (Min ((\<lambda>c. count_W [c]) ` set s))"
    using minimumRecolors_result [OF one_le_one one_le_length [OF assms]]
    by (simp only: nat_sint_one singleton_window_values)
  ultimately show ?thesis by (simp only:)
qed

lemma numOfSubarrays_single:
  assumes "xs \<noteq> []"
  shows "numOfSubarrays_unbounded xs 1 threshold
    = Some (int (length (filter (\<lambda>x. sint threshold \<le> sint x) xs)))"
proof -
  have "numOfSubarrays_unbounded xs 1 threshold
      = Some (int (length (filter (\<lambda>w. sint (1 * threshold) \<le> sint (sum_list w))
                             (map (\<lambda>x. [x]) xs))))"
    using numOfSubarrays_machine [OF one_le_one one_le_length [OF assms], of threshold]
    by (simp only: nat_sint_one windows_singletons)
  then show ?thesis by (simp add: filter_map comp_def)
qed

lemma findMaxAverage_single:
  assumes "xs \<noteq> []"
  shows "findMaxAverage_unbounded fdiv xs 1 = Some (fdiv (Max (sint ` set xs)) 1)"
proof -
  have "{sint (sum_list (window xs (Suc 0) j)) | j. j + Suc 0 \<le> length xs}
      = (\<lambda>x. sint (sum_list [x])) ` set xs"
    by (rule singleton_window_values)
  also have "\<dots> = sint ` set xs" by simp
  finally have vals: "{sint (sum_list (window xs (Suc 0) j)) | j. j + Suc 0 \<le> length xs}
      = sint ` set xs" .
  obtain max_s :: int32 where
    run: "findMaxAverage_unbounded fdiv xs 1 = Some (fdiv (sint max_s) (sint (1 :: int32)))"
    and m: "sint max_s = Max {sint (sum_list (window xs (nat (sint (1 :: int32))) j)) | j.
          j + nat (sint (1 :: int32)) \<le> length xs}"
    using findMaxAverage_machine [OF one_le_one one_le_length [OF assms], of fdiv] by blast
  have "sint max_s = Max (sint ` set xs)"
    using m by (simp only: nat_sint_one vals)
  with run show ?thesis by simp
qed

lemma distinct_window_sums_single: "distinct_window_sums xs (Suc 0) = sint ` set xs"
proof -
  have "distinct_window_sums xs (Suc 0)
      = {isum (window xs (Suc 0) j) | j. j + Suc 0 \<le> length xs}"
    unfolding distinct_window_sums_def
  proof (rule Collect_cong)
    fix y
    have "distinct (window xs (Suc 0) j)" if "j + Suc 0 \<le> length xs" for j
    proof -
      have "j < length xs" using that by simp
      then show ?thesis by (simp only: singleton_window distinct_singleton)
    qed
    then show "(\<exists>j. y = isum (window xs (Suc 0) j) \<and> j + Suc 0 \<le> length xs
          \<and> distinct (window xs (Suc 0) j))
      \<longleftrightarrow> (\<exists>j. y = isum (window xs (Suc 0) j) \<and> j + Suc 0 \<le> length xs)"
      by blast
  qed
  also have "\<dots> = (\<lambda>x. isum [x]) ` set xs" by (rule singleton_window_values)
  also have "\<dots> = sint ` set xs" by (simp add: isum_def)
  finally show ?thesis .
qed

lemma maximumSubarraySum_single:
  assumes "xs \<noteq> []"
  shows "map_option sint (maximumSubarraySum_unbounded xs 1) = Some (max 0 (Max (sint ` set xs)))"
proof -
  have "max_distinct_window_sum xs (Suc 0) = Max (sint ` set xs)"
    using assms by (simp add: max_distinct_window_sum_def distinct_window_sums_single)
  then show ?thesis
    using maximumSubarraySum_exact [OF one_le_one one_le_length [OF assms]]
    by (simp only: nat_sint_one)
qed

lemma windows_all_but_one:
  assumes "xs \<noteq> []"
  shows "set (windows xs (length xs - Suc 0)) = {butlast xs, tl xs}"
proof -
  obtain x xs' where xs: "xs = x # xs'" using assms by (cases xs) auto
  have "length xs + 1 - (length xs - Suc 0) = Suc (Suc 0)" by (simp add: xs)
  then have "windows xs (length xs - Suc 0)
      = [window xs (length xs - Suc 0) 0, window xs (length xs - Suc 0) (Suc 0)]"
    by (simp add: windows_def upt_rec)
  moreover have "window xs (length xs - Suc 0) 0 = butlast xs"
    by (simp add: window_def butlast_conv_take)
  moreover have "window xs (length xs - Suc 0) (Suc 0) = tl xs"
    by (simp add: window_def xs)
  ultimately show ?thesis by simp
qed

lemma take_ends_one: "xs \<noteq> [] \<Longrightarrow> take_ends xs (Suc 0) = max (hd xs) (last xs)"
proof -
  assume "xs \<noteq> []"
  then obtain x xs' where xs: "xs = x # xs'" by (cases xs) auto
  show ?thesis unfolding xs by simp
qed

lemma maxScore_single:
  assumes "xs \<noteq> []" "in_int_range (isum (butlast xs))" "in_int_range (isum (tl xs))"
  shows "map_option sint (maxScore_unbounded xs 1) = Some (max (sint (hd xs)) (sint (last xs)))"
proof -
  have ne: "map sint xs \<noteq> []" using assms(1) by simp
  have "take_ends (map sint xs) (Suc 0) = max (hd (map sint xs)) (last (map sint xs))"
    by (rule take_ends_one [OF ne])
  also have "\<dots> = max (sint (hd xs)) (sint (last xs))"
    using assms(1) by (simp add: hd_map last_map)
  finally have te: "take_ends (map sint xs) (nat (sint (1 :: int32)))
      = max (sint (hd xs)) (sint (last xs))"
    by (simp only: nat_sint_one)
  have "\<forall>w \<in> set (windows xs (length xs - Suc 0)). in_int_range (isum w)"
    using assms by (simp add: windows_all_but_one)
  then have blocks: "\<forall>w \<in> set (windows xs (length xs - nat (sint (1 :: int32)))). in_int_range (isum w)"
    by (simp only: nat_sint_one)
  have "in_int_range (sint (hd xs))" "in_int_range (sint (last xs))"
    using sint_int32_bounds by (simp_all add: in_int_range_def)
  then have "in_int_range (max (sint (hd xs)) (sint (last xs)))"
    by (simp add: max_def)
  then have answer: "in_int_range (take_ends (map sint xs) (nat (sint (1 :: int32))))"
    by (simp only: te)
  have k0: "0 \<le> sint (1 :: int32)" by simp
  show ?thesis
    using maxScore_exact [OF k0 one_le_length [OF assms(1)] blocks answer]
    by (simp only: te)
qed

section \<open>Indices held in an \<open>int\<close>\<close>

lemma sint_index: "0 \<le> z \<Longrightarrow> z < 2 ^ 31 \<Longrightarrow> sint (word_of_int z :: int32) = z"
  by (rule sint_int32_of_int) (simp add: in_int_range_def)

lemma word_of_int_succ: "(word_of_int z :: int32) + 1 = word_of_int (z + 1)"
  by simp

lemma sint_index_diff:
  assumes "0 \<le> a" "a < 2 ^ 31" "0 \<le> sint k"
  shows "sint (word_of_int a - k :: int32) = a - sint k"
proof -
  have e: "word_of_int a - k = (word_of_int (a - sint k) :: int32)" by simp
  have "in_int_range (a - sint k)"
    using assms sint_int32_bounds [of k] by (simp add: in_int_range_def)
  then show ?thesis unfolding e by (rule sint_int32_of_int)
qed

lemma sint_left:
  assumes "0 \<le> a" "a < 2 ^ 31" "1 \<le> sint k"
  shows "sint (word_of_int a - k + 1 :: int32) = a - sint k + 1"
proof -
  have e: "word_of_int a - k + 1 = (word_of_int (a - sint k + 1) :: int32)" by simp
  have "in_int_range (a - sint k + 1)"
    using assms sint_int32_bounds [of k] by (simp add: in_int_range_def)
  then show ?thesis unfolding e by (rule sint_int32_of_int)
qed

lemma sint_pred:
  assumes "1 \<le> sint k"
  shows "sint (k - 1 :: int32) = sint k - 1"
proof -
  have e: "k - 1 = (word_of_int (sint k - 1) :: int32)" by simp
  have "in_int_range (sint k - 1)"
    using assms sint_int32_bounds [of k] by (simp add: in_int_range_def)
  then show ?thesis unfolding e by (rule sint_int32_of_int)
qed

lemma sint_size_as_int:
  "int (length xs) < 2 ^ 31 \<Longrightarrow> sint (size_as_int xs) = int (length xs)"
proof -
  assume len: "int (length xs) < 2 ^ 31"
  have e: "size_as_int xs = (word_of_int (int (length xs)) :: int32)"
    by (simp add: size_as_int_def)
  have "0 \<le> int (length xs)" by simp
  then show ?thesis unfolding e using len by (rule sint_index)
qed

lemma lt_size_index:
  assumes "int (length xs) \<le> 2 ^ 31" "0 \<le> i" "i \<le> int (length xs)"
  shows "lt_size (word_of_int i) xs \<longleftrightarrow> i < int (length xs)"
proof (cases "i < 2 ^ 31")
  case True
  then show ?thesis using assms(2) by (simp add: lt_size_def sint_index)
next
  case False
  with assms have i: "i = 2 ^ 31" "\<not> i < int (length xs)" by linarith+
  have "sint (word_of_int (2 ^ 31) :: int32) < 0" by simp
  then show ?thesis using i by (simp add: lt_size_def)
qed

section \<open>The functions and their counterparts on unbounded indices\<close>

lemma maxVowels_loop_unbounded_eq:
  assumes k: "1 \<le> sint k" and len: "int (length s) \<le> 2 ^ 31"
  shows "0 \<le> i \<Longrightarrow> i \<le> int (length s) \<Longrightarrow>
    maxVowels_loop s k (word_of_int i) ans yuanyin
      = maxVowels_loop_unbounded s (sint k) i ans yuanyin"
proof (induction "nat (int (length s) - i)" arbitrary: i ans yuanyin)
  case 0
  then have ge: "\<not> i < int (length s)" by simp
  then have "\<not> lt_size (word_of_int i) s" using lt_size_index [OF len 0(2,3)] by simp
  then show ?case using ge
    by (subst maxVowels_loop.simps, subst maxVowels_loop_unbounded.simps) simp
next
  case (Suc d)
  then have lt: "i < int (length s)" by linarith
  then have i31: "i < 2 ^ 31" using len by linarith
  have g: "lt_size (word_of_int i) s" using lt_size_index [OF len Suc.prems] lt by simp
  have si: "sint (word_of_int i :: int32) = i" by (rule sint_index [OF Suc.prems(1) i31])
  have sl: "sint (word_of_int i - k + 1 :: int32) = i - sint k + 1"
    by (rule sint_left [OF Suc.prems(1) i31 k])
  have d: "d = nat (int (length s) - (i + 1))" using Suc.hyps(2) by linarith
  have i1: "0 \<le> i + 1" "i + 1 \<le> int (length s)" using Suc.prems lt by linarith+
  have rec: "maxVowels_loop s k (word_of_int i + 1) a y
      = maxVowels_loop_unbounded s (sint k) (i + 1) a y" for a y
    unfolding word_of_int_succ by (rule Suc.hyps(1) [OF d i1])
  show ?case
    by (subst maxVowels_loop.simps, subst maxVowels_loop_unbounded.simps)
       (simp only: g lt if_True si sl Let_def rec)
qed

lemma maxVowels_unbounded_eq:
  assumes "1 \<le> sint k" "int (length s) \<le> 2 ^ 31"
  shows "maxVowels s k = maxVowels_unbounded s k"
  using maxVowels_loop_unbounded_eq [OF assms, of 0 0 0]
  by (simp add: maxVowels_def maxVowels_unbounded_def)

lemma word_of_int_count:
  "(word_of_int a :: int32) + (if c then 1 else 0) = word_of_int (a + (if c then 1 else 0))"
  by simp

lemma numOfSubarrays_loop_unbounded_eq:
  assumes k: "1 \<le> sint k" and len: "int (length arr) \<le> 2 ^ 31"
  shows "0 \<le> i \<Longrightarrow> i \<le> int (length arr) \<Longrightarrow>
    numOfSubarrays_loop arr k threshold (word_of_int i) (word_of_int ans) s
      = map_option word_of_int (numOfSubarrays_loop_unbounded arr k threshold i ans s)"
proof (induction "nat (int (length arr) - i)" arbitrary: i ans s)
  case 0
  then have ge: "\<not> i < int (length arr)" by simp
  then have "\<not> lt_size (word_of_int i) arr" using lt_size_index [OF len 0(2,3)] by simp
  then show ?case using ge
    by (subst numOfSubarrays_loop.simps, subst numOfSubarrays_loop_unbounded.simps) simp
next
  case (Suc d)
  then have lt: "i < int (length arr)" by linarith
  then have i31: "i < 2 ^ 31" using len by linarith
  have g: "lt_size (word_of_int i) arr" using lt_size_index [OF len Suc.prems] lt by simp
  have si: "sint (word_of_int i :: int32) = i" by (rule sint_index [OF Suc.prems(1) i31])
  have sl: "sint (word_of_int i - k + 1 :: int32) = i - sint k + 1"
    by (rule sint_left [OF Suc.prems(1) i31 k])
  have sk: "sint (k - 1) = sint k - 1" by (rule sint_pred [OF k])
  have d: "d = nat (int (length arr) - (i + 1))" using Suc.hyps(2) by linarith
  have i1: "0 \<le> i + 1" "i + 1 \<le> int (length arr)" using Suc.prems lt by linarith+
  have rec: "numOfSubarrays_loop arr k threshold (word_of_int i + 1) (word_of_int a) y
      = map_option word_of_int (numOfSubarrays_loop_unbounded arr k threshold (i + 1) a y)" for a y
    unfolding word_of_int_succ by (rule Suc.hyps(1) [OF d i1])
  have unfold: "numOfSubarrays_loop arr k threshold (word_of_int i) (word_of_int ans) s
      = (case index_at arr i of
           None \<Rightarrow> None
         | Some x \<Rightarrow>
             if i < sint k - 1
             then map_option word_of_int
                    (numOfSubarrays_loop_unbounded arr k threshold (i + 1) ans (s + x))
             else (case index_at arr (i - sint k + 1) of
                     None \<Rightarrow> None
                   | Some y \<Rightarrow>
                       map_option word_of_int
                         (numOfSubarrays_loop_unbounded arr k threshold (i + 1)
                            (ans + (if sint (k * threshold) \<le> sint (s + x) then 1 else 0))
                            (s + x - y))))"
    by (subst numOfSubarrays_loop.simps)
       (simp only: g if_True si sl sk Let_def word_of_int_count rec)
  show ?case
    unfolding unfold
    by (subst numOfSubarrays_loop_unbounded.simps)
       (simp only: lt if_True Let_def option.map_disc_iff option.case_distrib [of "map_option word_of_int"]
          if_distrib [of "map_option word_of_int"] option.map)
qed

lemma numOfSubarrays_unbounded_eq:
  assumes "1 \<le> sint k" "int (length arr) \<le> 2 ^ 31"
  shows "numOfSubarrays arr k threshold
    = map_option word_of_int (numOfSubarrays_unbounded arr k threshold)"
  using numOfSubarrays_loop_unbounded_eq [OF assms, of 0 threshold 0 0]
  by (simp add: numOfSubarrays_def numOfSubarrays_unbounded_def)

lemma maximumSubarraySum_loop_unbounded_eq:
  assumes k: "1 \<le> sint k" and len: "int (length nums) \<le> 2 ^ 31"
  shows "0 \<le> i \<Longrightarrow> i \<le> int (length nums) \<Longrightarrow>
    maximumSubarraySum_loop nums k (word_of_int i) ans s cnt
      = maximumSubarraySum_loop_unbounded nums k i ans s cnt"
proof (induction "nat (int (length nums) - i)" arbitrary: i ans s cnt)
  case 0
  then have ge: "\<not> i < int (length nums)" by simp
  then have "\<not> lt_size (word_of_int i) nums" using lt_size_index [OF len 0(2,3)] by simp
  then show ?case using ge
    by (subst maximumSubarraySum_loop.simps, subst maximumSubarraySum_loop_unbounded.simps) simp
next
  case (Suc d)
  then have lt: "i < int (length nums)" by linarith
  then have i31: "i < 2 ^ 31" using len by linarith
  have g: "lt_size (word_of_int i) nums" using lt_size_index [OF len Suc.prems] lt by simp
  have si: "sint (word_of_int i :: int32) = i" by (rule sint_index [OF Suc.prems(1) i31])
  have sl: "sint (word_of_int i - k + 1 :: int32) = i - sint k + 1"
    by (rule sint_left [OF Suc.prems(1) i31 k])
  have d: "d = nat (int (length nums) - (i + 1))" using Suc.hyps(2) by linarith
  have i1: "0 \<le> i + 1" "i + 1 \<le> int (length nums)" using Suc.prems lt by linarith+
  have rec: "maximumSubarraySum_loop nums k (word_of_int i + 1) a y c
      = maximumSubarraySum_loop_unbounded nums k (i + 1) a y c" for a y c
    unfolding word_of_int_succ by (rule Suc.hyps(1) [OF d i1])
  show ?case
    by (subst maximumSubarraySum_loop.simps, subst maximumSubarraySum_loop_unbounded.simps)
       (simp only: g lt if_True si sl Let_def rec)
qed

lemma maximumSubarraySum_unbounded_eq:
  assumes "1 \<le> sint k" "int (length nums) \<le> 2 ^ 31"
  shows "maximumSubarraySum nums k = maximumSubarraySum_unbounded nums k"
  using maximumSubarraySum_loop_unbounded_eq [OF assms, of 0 0 0 Map.empty]
  by (simp add: maximumSubarraySum_def maximumSubarraySum_unbounded_def)

lemma findMaxAverage_loop_unbounded_eq:
  assumes k: "1 \<le> sint k" and len: "int (length nums) \<le> 2 ^ 31"
  shows "0 \<le> i \<Longrightarrow> i \<le> int (length nums) \<Longrightarrow>
    findMaxAverage_loop nums k (word_of_int i) max_s s
      = findMaxAverage_loop_unbounded nums k i max_s s"
proof (induction "nat (int (length nums) - i)" arbitrary: i max_s s)
  case 0
  then have ge: "\<not> i < int (length nums)" by simp
  then have "\<not> lt_size (word_of_int i) nums" using lt_size_index [OF len 0(2,3)] by simp
  then show ?case using ge
    by (subst findMaxAverage_loop.simps, subst findMaxAverage_loop_unbounded.simps) simp
next
  case (Suc d)
  then have lt: "i < int (length nums)" by linarith
  then have i31: "i < 2 ^ 31" using len by linarith
  have g: "lt_size (word_of_int i) nums" using lt_size_index [OF len Suc.prems] lt by simp
  have si: "sint (word_of_int i :: int32) = i" by (rule sint_index [OF Suc.prems(1) i31])
  have sl: "sint (word_of_int i - k + 1 :: int32) = i - sint k + 1"
    by (rule sint_left [OF Suc.prems(1) i31 k])
  have sk: "sint (k - 1) = sint k - 1" by (rule sint_pred [OF k])
  have d: "d = nat (int (length nums) - (i + 1))" using Suc.hyps(2) by linarith
  have i1: "0 \<le> i + 1" "i + 1 \<le> int (length nums)" using Suc.prems lt by linarith+
  have rec: "findMaxAverage_loop nums k (word_of_int i + 1) a y
      = findMaxAverage_loop_unbounded nums k (i + 1) a y" for a y
    unfolding word_of_int_succ by (rule Suc.hyps(1) [OF d i1])
  show ?case
    by (subst findMaxAverage_loop.simps, subst findMaxAverage_loop_unbounded.simps)
       (simp only: g lt if_True si sl sk Let_def rec)
qed

lemma findMaxAverage_unbounded_eq:
  assumes "1 \<le> sint k" "int (length nums) \<le> 2 ^ 31"
  shows "findMaxAverage fdiv nums k = findMaxAverage_unbounded fdiv nums k"
  using findMaxAverage_loop_unbounded_eq [OF assms, of 0 INT_MIN 0]
  by (simp add: findMaxAverage_def findMaxAverage_unbounded_def)

lemma minimumRecolors_first_unbounded_eq:
  "0 \<le> i \<Longrightarrow> i \<le> sint k \<Longrightarrow>
    minimumRecolors_first blocks k (word_of_int i) cntW
      = minimumRecolors_first_unbounded blocks (sint k) i cntW"
proof (induction "nat (sint k - i)" arbitrary: i cntW)
  case 0
  then have i: "i = sint k" by simp
  have "word_of_int (sint k) = k" by simp
  then show ?case unfolding i
    by (subst minimumRecolors_first.simps, subst minimumRecolors_first_unbounded.simps) simp
next
  case (Suc d)
  then have lt: "i < sint k" by linarith
  then have i31: "i < 2 ^ 31" using sint_int32_bounds(2) [of k] by linarith
  have si: "sint (word_of_int i :: int32) = i" by (rule sint_index [OF Suc.prems(1) i31])
  have d: "d = nat (sint k - (i + 1))" using Suc.hyps(2) by linarith
  have i1: "0 \<le> i + 1" "i + 1 \<le> sint k" using Suc.prems lt by linarith+
  have rec: "minimumRecolors_first blocks k (word_of_int i + 1) c
      = minimumRecolors_first_unbounded blocks (sint k) (i + 1) c" for c
    unfolding word_of_int_succ by (rule Suc.hyps(1) [OF d i1])
  show ?case
    by (subst minimumRecolors_first.simps, subst minimumRecolors_first_unbounded.simps)
       (simp only: lt if_True si rec)
qed

lemma minimumRecolors_slide_unbounded_eq:
  assumes k: "0 \<le> sint k" and len: "int (length blocks) < 2 ^ 31"
  shows "sint k \<le> r \<Longrightarrow> r < 2 ^ 31 \<Longrightarrow>
    minimumRecolors_slide blocks k (size_as_int blocks) (word_of_int r) cntW ans
      = minimumRecolors_slide_unbounded blocks (sint k) r cntW ans"
proof (induction "nat (int (length blocks) - r)" arbitrary: r cntW ans)
  case 0
  then have ge: "\<not> r < int (length blocks)" by simp
  have r0: "0 \<le> r" using 0(2) k by linarith
  have sr: "sint (word_of_int r :: int32) = r" by (rule sint_index [OF r0 0(3)])
  show ?case using ge
    by (subst minimumRecolors_slide.simps, subst minimumRecolors_slide_unbounded.simps)
       (simp add: sr sint_size_as_int [OF len])
next
  case (Suc d)
  then have lt: "r < int (length blocks)" by linarith
  have r0: "0 \<le> r" using Suc.prems(1) k by linarith
  have sr: "sint (word_of_int r :: int32) = r" by (rule sint_index [OF r0 Suc.prems(2)])
  have g: "r < sint (size_as_int blocks)"
    unfolding sint_size_as_int [OF len] by (rule lt)
  have sd: "sint (word_of_int r - k :: int32) = r - sint k"
    by (rule sint_index_diff [OF r0 Suc.prems(2) k])
  have d: "d = nat (int (length blocks) - (r + 1))" using Suc.hyps(2) by linarith
  have r1: "sint k \<le> r + 1" "r + 1 < 2 ^ 31" using Suc.prems lt len by linarith+
  have rec: "minimumRecolors_slide blocks k (size_as_int blocks) (word_of_int r + 1) c a
      = minimumRecolors_slide_unbounded blocks (sint k) (r + 1) c a" for c a
    unfolding word_of_int_succ by (rule Suc.hyps(1) [OF d r1])
  show ?case
    by (subst minimumRecolors_slide.simps, subst minimumRecolors_slide_unbounded.simps)
       (simp only: g lt if_True sr sd Let_def rec)
qed

lemma minimumRecolors_unbounded_eq:
  assumes k: "1 \<le> sint k" and len: "int (length blocks) < 2 ^ 31"
  shows "minimumRecolors blocks k = minimumRecolors_unbounded blocks k"
proof -
  have k0: "0 \<le> sint k" using k by linarith
  have first: "minimumRecolors_first blocks k 0 0
      = minimumRecolors_first_unbounded blocks (sint k) 0 0"
    using minimumRecolors_first_unbounded_eq [of 0 k blocks 0] k0 by simp
  have "minimumRecolors_slide blocks k (size_as_int blocks) (word_of_int (sint k)) c a
      = minimumRecolors_slide_unbounded blocks (sint k) (sint k) c a" for c a
    using sint_int32_bounds(2) [of k] by (intro minimumRecolors_slide_unbounded_eq [OF k0 len]) simp_all
  then have slide: "minimumRecolors_slide blocks k (size_as_int blocks) k c a
      = minimumRecolors_slide_unbounded blocks (sint k) (sint k) c a" for c a
    by simp
  show ?thesis
    by (simp add: minimumRecolors_def minimumRecolors_unbounded_def Let_def first slide
        split: option.splits)
qed

lemma minimumRecolors_dir1_first_eq:
  "minimumRecolors_dir1_first blocks k i cntW = minimumRecolors_first blocks k i cntW"
proof (induction blocks k i cntW rule: minimumRecolors_first.induct)
  case (1 blocks k i cntW)
  show ?case
    by (subst minimumRecolors_dir1_first.simps, subst minimumRecolors_first.simps)
       (simp add: 1 split: option.splits)
qed

lemma minimumRecolors_dir1_slide_eq:
  "minimumRecolors_dir1_slide blocks k n r cntW ans = minimumRecolors_slide blocks k n r cntW ans"
proof (induction blocks k n r cntW ans rule: minimumRecolors_slide.induct)
  case (1 blocks k n r cntW ans)
  show ?case
    by (subst minimumRecolors_dir1_slide.simps, subst minimumRecolors_slide.simps)
       (simp add: 1 Let_def split: option.splits)
qed

lemma minimumRecolors_dir1_eq: "minimumRecolors_dir1 = minimumRecolors"
  by (simp add: fun_eq_iff minimumRecolors_dir1_def minimumRecolors_def
      minimumRecolors_dir1_first_eq minimumRecolors_dir1_slide_eq split: option.splits)

lemma maxScore_loop_unbounded_eq:
  assumes m: "0 \<le> m" and len: "int (length cardPoints) < 2 ^ 31"
  shows "m \<le> i \<Longrightarrow> i \<le> int (length cardPoints) \<Longrightarrow>
    maxScore_loop cardPoints (word_of_int m) (size_as_int cardPoints) (word_of_int i) s min_s
      = maxScore_loop_unbounded cardPoints m i s min_s"
proof (induction "nat (int (length cardPoints) - i)" arbitrary: i s min_s)
  case 0
  then have ge: "\<not> i < int (length cardPoints)" by simp
  have i0: "0 \<le> i" "i < 2 ^ 31" using 0(2,3) m len by linarith+
  have si: "sint (word_of_int i :: int32) = i" by (rule sint_index [OF i0])
  show ?case using ge
    by (subst maxScore_loop.simps, subst maxScore_loop_unbounded.simps)
       (simp add: si sint_size_as_int [OF len])
next
  case (Suc d)
  then have lt: "i < int (length cardPoints)" by linarith
  have i0: "0 \<le> i" "i < 2 ^ 31" using Suc.prems m len by linarith+
  have m31: "m < 2 ^ 31" using Suc.prems(1) i0 by linarith
  have si: "sint (word_of_int i :: int32) = i" by (rule sint_index [OF i0])
  have sm: "sint (word_of_int m :: int32) = m" by (rule sint_index [OF m m31])
  have g: "i < sint (size_as_int cardPoints)"
    unfolding sint_size_as_int [OF len] by (rule lt)
  have "sint (word_of_int i - word_of_int m :: int32) = i - sint (word_of_int m :: int32)"
    by (rule sint_index_diff [OF i0]) (simp add: sm m)
  then have sd: "sint (word_of_int i - word_of_int m :: int32) = i - m" by (simp only: sm)
  have d: "d = nat (int (length cardPoints) - (i + 1))" using Suc.hyps(2) by linarith
  have i1: "m \<le> i + 1" "i + 1 \<le> int (length cardPoints)" using Suc.prems lt by linarith+
  have rec: "maxScore_loop cardPoints (word_of_int m) (size_as_int cardPoints) (word_of_int i + 1) a b
      = maxScore_loop_unbounded cardPoints m (i + 1) a b" for a b
    unfolding word_of_int_succ by (rule Suc.hyps(1) [OF d i1])
  show ?case
    by (subst maxScore_loop.simps, subst maxScore_loop_unbounded.simps)
       (simp only: g lt if_True si sd Let_def rec)
qed

lemma maxScore_unbounded_eq:
  assumes k: "0 \<le> sint k" and len: "int (length cardPoints) < 2 ^ 31"
  shows "maxScore cardPoints k = maxScore_unbounded cardPoints k"
proof -
  let ?n = "int (length cardPoints)"
  let ?m = "?n - sint k"
  have e: "size_as_int cardPoints - k = (word_of_int ?m :: int32)"
    by (simp add: size_as_int_def)
  have "in_int_range ?m"
    using k len sint_int32_bounds(2) [of k] by (simp add: in_int_range_def)
  then have sm: "sint (word_of_int ?m :: int32) = ?m" by (rule sint_int32_of_int)
  show ?thesis
  proof (cases "0 \<le> ?m")
    case True
    have le: "?m \<le> ?n" using k by linarith
    have loop: "maxScore_loop cardPoints (word_of_int ?m) (size_as_int cardPoints) (word_of_int ?m) a b
        = maxScore_loop_unbounded cardPoints ?m ?m a b" for a b
      by (rule maxScore_loop_unbounded_eq [OF True len order_refl le])
    show ?thesis
      unfolding maxScore_def maxScore_unbounded_def Let_def e sm loop ..
  next
    case False
    then have "reduce cardPoints ?m = None" by (simp add: reduce_def)
    then show ?thesis
      unfolding maxScore_def maxScore_unbounded_def Let_def e sm by simp
  qed
qed

section \<open>A loop with an \<open>int\<close> index reads the first \<open>2 ^ 31\<close> elements only\<close>

lemma index_at_take_int32:
  assumes "2 ^ 31 \<le> length xs"
  shows "index_at (take (2 ^ 31) xs) (sint (w :: int32)) = index_at xs (sint w)"
proof (cases "0 \<le> sint w")
  case True
  have w: "sint w < 2147483648" using sint_int32_bounds(2) [of w] by simp
  have len: "2147483648 \<le> length xs" using assms by simp
  have n: "nat (sint w) < 2 ^ 31" using True w by simp
  have "length (take (2 ^ 31) xs) = 2147483648" using len by simp
  then have l1: "sint w < int (length (take (2 ^ 31) xs))" using w by linarith
  have l2: "sint w < int (length xs)" using w len by linarith
  have "take (2 ^ 31) xs ! nat (sint w) = xs ! nat (sint w)" using n by (rule nth_take)
  then show ?thesis using True l1 l2 by (simp only: index_at_def simp_thms if_True)
next
  case False
  then show ?thesis by (simp only: index_at_def simp_thms if_False)
qed

lemma lt_size_take_int32:
  assumes "2 ^ 31 \<le> length xs"
  shows "lt_size (w :: int32) (take (2 ^ 31) xs) \<longleftrightarrow> lt_size w xs"
proof -
  have w: "sint w < 2147483648" using sint_int32_bounds(2) [of w] by simp
  have len: "2147483648 \<le> length xs" using assms by simp
  have "length (take (2 ^ 31) xs) = 2147483648" using len by simp
  then have l1: "sint w < int (length (take (2 ^ 31) xs))" using w by linarith
  have l2: "sint w < int (length xs)" using w len by linarith
  show ?thesis using l1 l2 by (simp only: lt_size_def simp_thms)
qed

lemma maxVowels_loop_agree:
  "\<forall>w :: int32. index_at ys (sint w) = index_at xs (sint w) \<and> lt_size w ys = lt_size w xs \<Longrightarrow>
   maxVowels_loop ys k i ans yuanyin = maxVowels_loop xs k i ans yuanyin"
proof (induction xs k i ans yuanyin rule: maxVowels_loop.induct)
  case (1 s k i ans yuanyin)
  note a = 1(3) [rule_format, THEN conjunct1] 1(3) [rule_format, THEN conjunct2]
  show ?case
    unfolding maxVowels_loop.simps [of ys k i] maxVowels_loop.simps [of s k i]
    by (simp add: a 1 Let_def split: option.splits)
qed

lemma maximumSubarraySum_loop_agree:
  "\<forall>w :: int32. index_at ys (sint w) = index_at xs (sint w) \<and> lt_size w ys = lt_size w xs \<Longrightarrow>
   maximumSubarraySum_loop ys k i ans s cnt = maximumSubarraySum_loop xs k i ans s cnt"
proof (induction xs k i ans s cnt rule: maximumSubarraySum_loop.induct)
  case (1 nums k i ans s cnt)
  note a = 1(3) [rule_format, THEN conjunct1] 1(3) [rule_format, THEN conjunct2]
  show ?case
    unfolding maximumSubarraySum_loop.simps [of ys k i] maximumSubarraySum_loop.simps [of nums k i]
    by (simp add: a 1 Let_def split: option.splits)
qed

lemma numOfSubarrays_loop_agree:
  "\<forall>w :: int32. index_at ys (sint w) = index_at xs (sint w) \<and> lt_size w ys = lt_size w xs \<Longrightarrow>
   numOfSubarrays_loop ys k threshold i ans s = numOfSubarrays_loop xs k threshold i ans s"
proof (induction xs k threshold i ans s rule: numOfSubarrays_loop.induct)
  case (1 arr k threshold i ans s)
  note a = 1(3) [rule_format, THEN conjunct1] 1(3) [rule_format, THEN conjunct2]
  show ?case
    unfolding numOfSubarrays_loop.simps [of ys k threshold i]
      numOfSubarrays_loop.simps [of arr k threshold i]
    by (simp add: a 1 Let_def split: option.splits)
qed

lemma findMaxAverage_loop_agree:
  "\<forall>w :: int32. index_at ys (sint w) = index_at xs (sint w) \<and> lt_size w ys = lt_size w xs \<Longrightarrow>
   findMaxAverage_loop ys k i max_s s = findMaxAverage_loop xs k i max_s s"
proof (induction xs k i max_s s rule: findMaxAverage_loop.induct)
  case (1 nums k i max_s s)
  note a = 1(3) [rule_format, THEN conjunct1] 1(3) [rule_format, THEN conjunct2]
  show ?case
    unfolding findMaxAverage_loop.simps [of ys k i] findMaxAverage_loop.simps [of nums k i]
    by (simp add: a 1 Let_def split: option.splits)
qed

lemma take_agrees:
  assumes "2 ^ 31 \<le> length xs"
  shows "\<forall>w :: int32. index_at (take (2 ^ 31) xs) (sint w) = index_at xs (sint w)
      \<and> lt_size w (take (2 ^ 31) xs) = lt_size w xs"
  using index_at_take_int32 [OF assms] lt_size_take_int32 [OF assms] by blast

lemma maxVowels_take:
  "2 ^ 31 \<le> length s \<Longrightarrow> maxVowels s k = maxVowels (take (2 ^ 31) s) k"
  unfolding maxVowels_def by (rule maxVowels_loop_agree [OF take_agrees, symmetric])

lemma maximumSubarraySum_take:
  "2 ^ 31 \<le> length nums \<Longrightarrow> maximumSubarraySum nums k = maximumSubarraySum (take (2 ^ 31) nums) k"
  unfolding maximumSubarraySum_def by (rule maximumSubarraySum_loop_agree [OF take_agrees, symmetric])

lemma numOfSubarrays_take:
  "2 ^ 31 \<le> length arr \<Longrightarrow>
   numOfSubarrays arr k threshold = numOfSubarrays (take (2 ^ 31) arr) k threshold"
  unfolding numOfSubarrays_def by (rule numOfSubarrays_loop_agree [OF take_agrees, symmetric])

lemma findMaxAverage_take:
  "2 ^ 31 \<le> length nums \<Longrightarrow>
   findMaxAverage fdiv nums k = findMaxAverage fdiv (take (2 ^ 31) nums) k"
  unfolding findMaxAverage_def
  by (simp only: findMaxAverage_loop_agree [OF take_agrees])

lemma length_take_int32:
  assumes "2 ^ 31 \<le> length xs"
  shows "int (length (take (2 ^ 31) xs)) = 2 ^ 31"
proof -
  have "length (take (2 ^ 31) xs) = 2 ^ 31" using assms by simp
  then show ?thesis by simp
qed

lemma window_take: "j + k \<le> N \<Longrightarrow> window (take N xs) k j = window xs k j"
  by (simp add: window_def drop_take)

lemma distinct_window_sums_take:
  "distinct_window_sums (take N xs) k \<subseteq> distinct_window_sums xs k"
proof
  fix y
  assume "y \<in> distinct_window_sums (take N xs) k"
  then obtain j where j: "y = isum (window (take N xs) k j)" "j + k \<le> length (take N xs)"
    "distinct (window (take N xs) k j)"
    unfolding distinct_window_sums_def by blast
  have "j + k \<le> N" "j + k \<le> length xs" using j(2) by simp_all
  then show "y \<in> distinct_window_sums xs k"
    using j(1,3) unfolding distinct_window_sums_def window_take [OF \<open>j + k \<le> N\<close>] by blast
qed

text \<open>At every length: the result of \<open>maximumSubarraySum\<close> is the larger of 0 and the
  sums of some of the distinct windows (all of them, below \<open>2 ^ 31\<close> elements).\<close>

lemma maximumSubarraySum_result_any_length:
  assumes k: "1 \<le> sint k" "sint k \<le> int (length nums)"
  shows "\<exists>r S. maximumSubarraySum nums k = Some r \<and> sint r = Max (insert 0 S)
     \<and> S \<subseteq> distinct_window_sums nums (nat (sint k))"
proof (cases "2 ^ 31 \<le> length nums")
  case True
  let ?p = "take (2 ^ 31) nums"
  have len: "int (length ?p) = 2 ^ 31" by (rule length_take_int32 [OF True])
  then have le: "int (length ?p) \<le> 2 ^ 31" by simp
  have kp: "sint k \<le> int (length ?p)"
    unfolding len using sint_int32_bounds(2) [of k] by simp
  have "maximumSubarraySum nums k = maximumSubarraySum_unbounded ?p k"
    using maximumSubarraySum_take [OF True] maximumSubarraySum_unbounded_eq [OF k(1) le]
    by (rule trans)
  then show ?thesis
    using maximumSubarraySum_result [OF k(1) kp] distinct_window_sums_take [of "2 ^ 31" nums]
    by metis
next
  case False
  then have "length nums \<le> 2 ^ 31" by simp
  then have "int (length nums) \<le> int (2 ^ 31)" by (simp only: of_nat_le_iff)
  then have le: "int (length nums) \<le> 2 ^ 31" by simp
  show ?thesis
    using maximumSubarraySum_result [OF k] maximumSubarraySum_unbounded_eq [OF k(1) le]
    by (metis order_refl)
qed

text \<open>And \<open>maxVowels\<close> with \<open>k = 1\<close> scans the first \<open>2 ^ 31\<close> characters of a
  longer string.\<close>

lemma maxVowels_single_long:
  assumes "2 ^ 31 \<le> length s"
  shows "maxVowels s 1 = Some (if \<exists>c\<in>set (take (2 ^ 31) s). is_vowel c then 1 else 0)"
proof -
  let ?p = "take (2 ^ 31) s"
  have len: "int (length ?p) = 2 ^ 31" by (rule length_take_int32 [OF assms])
  then have le: "int (length ?p) \<le> 2 ^ 31" by simp
  have ne: "?p \<noteq> []" using len by auto
  have "maxVowels s 1 = maxVowels_unbounded ?p 1"
    using maxVowels_take [OF assms] maxVowels_unbounded_eq [OF one_le_one le] by (rule trans)
  then show ?thesis by (simp only: maxVowels_single [OF ne])
qed

lemma maximumSubarraySum_single_long:
  assumes "2 ^ 31 \<le> length xs"
  shows "map_option sint (maximumSubarraySum xs 1)
    = Some (max 0 (Max (sint ` set (take (2 ^ 31) xs))))"
proof -
  let ?p = "take (2 ^ 31) xs"
  have len: "int (length ?p) = 2 ^ 31" by (rule length_take_int32 [OF assms])
  then have le: "int (length ?p) \<le> 2 ^ 31" by simp
  have ne: "?p \<noteq> []" using len by auto
  have "maximumSubarraySum xs 1 = maximumSubarraySum_unbounded ?p 1"
    using maximumSubarraySum_take [OF assms] maximumSubarraySum_unbounded_eq [OF one_le_one le]
    by (rule trans)
  then show ?thesis by (simp only: maximumSubarraySum_single [OF ne])
qed

lemma findMaxAverage_single_long:
  assumes "2 ^ 31 \<le> length xs"
  shows "findMaxAverage fdiv xs 1 = Some (fdiv (Max (sint ` set (take (2 ^ 31) xs))) 1)"
proof -
  let ?p = "take (2 ^ 31) xs"
  have len: "int (length ?p) = 2 ^ 31" by (rule length_take_int32 [OF assms])
  then have le: "int (length ?p) \<le> 2 ^ 31" by simp
  have ne: "?p \<noteq> []" using len by auto
  have "findMaxAverage fdiv xs 1 = findMaxAverage_unbounded fdiv ?p 1"
    using findMaxAverage_take [OF assms] findMaxAverage_unbounded_eq [OF one_le_one le]
    by (rule trans)
  then show ?thesis by (simp only: findMaxAverage_single [OF ne])
qed

lemma numOfSubarrays_single_long:
  assumes "2 ^ 31 \<le> length xs"
  shows "numOfSubarrays xs 1 threshold
    = Some (word_of_int (int (length (filter (\<lambda>x. sint threshold \<le> sint x) (take (2 ^ 31) xs)))))"
proof -
  let ?p = "take (2 ^ 31) xs"
  have len: "int (length ?p) = 2 ^ 31" by (rule length_take_int32 [OF assms])
  then have le: "int (length ?p) \<le> 2 ^ 31" by simp
  have ne: "?p \<noteq> []" using len by auto
  have "numOfSubarrays xs 1 threshold
      = map_option word_of_int (numOfSubarrays_unbounded ?p 1 threshold)"
    using numOfSubarrays_take [OF assms] numOfSubarrays_unbounded_eq [OF one_le_one le]
    by (rule trans)
  then show ?thesis by (simp only: numOfSubarrays_single [OF ne] option.map)
qed

section \<open>The functions on sequences of fewer than \<open>2 ^ 31\<close> elements\<close>

text \<open>Below \<open>2 ^ 31\<close> elements the length is a value of an \<open>int\<close> and no index wraps:
  what was proved of the loops on unbounded indices holds of the functions.\<close>

lemma le_of_less_int32: "int (length xs) < 2 ^ 31 \<Longrightarrow> int (length xs) \<le> 2 ^ 31"
  by simp

lemma length_less_of_sint_eq: "sint (k :: int32) = int (length xs) \<Longrightarrow> int (length xs) < 2 ^ 31"
  using sint_int32_bounds(2) [of k] by simp

lemma maxVowels_result_bounded:
  assumes "1 \<le> sint k" "sint k \<le> int (length s)" "int (length s) < 2 ^ 31"
  shows "maxVowels s k =
    Some (Max {count_vowels (window s (nat (sint k)) j) | j. j + nat (sint k) \<le> length s})"
  unfolding maxVowels_unbounded_eq [OF assms(1) le_of_less_int32 [OF assms(3)]]
  by (rule maxVowels_result [OF assms(1,2)])

lemma minimumRecolors_result_bounded:
  assumes "1 \<le> sint k" "sint k \<le> int (length blocks)" "int (length blocks) < 2 ^ 31"
  shows "minimumRecolors blocks k =
    Some (Min {count_W (window blocks (nat (sint k)) j) | j. j + nat (sint k) \<le> length blocks})"
  unfolding minimumRecolors_unbounded_eq [OF assms(1,3)]
  by (rule minimumRecolors_result [OF assms(1,2)])

text \<open>The count of \<open>numOfSubarrays\<close> is at most the number of windows, hence a value of
  an \<open>int\<close>.\<close>

lemma numOfSubarrays_count_bounded:
  assumes "1 \<le> sint k" "sint k \<le> int (length arr)" "int (length arr) < 2 ^ 31"
  shows "map_option sint (numOfSubarrays arr k threshold)
    = numOfSubarrays_unbounded arr k threshold"
proof -
  let ?c = "length (filter (\<lambda>w. sint (k * threshold) \<le> sint (sum_list w))
                      (windows arr (nat (sint k))))"
  have u: "numOfSubarrays_unbounded arr k threshold = Some (int ?c)"
    by (rule numOfSubarrays_machine [OF assms(1,2)])
  have "?c \<le> length (windows arr (nat (sint k)))" by (rule length_filter_le)
  also have "\<dots> = length arr + 1 - nat (sint k)" by (simp add: windows_def)
  also have "\<dots> \<le> length arr" using assms(1) by linarith
  finally have "int ?c < 2 ^ 31" using assms(3) by linarith
  then have "sint (word_of_int (int ?c) :: int32) = int ?c" by (intro sint_index) simp_all
  then show ?thesis
    unfolding numOfSubarrays_unbounded_eq [OF assms(1) le_of_less_int32 [OF assms(3)]] u
    by simp
qed

lemma numOfSubarrays_machine_bounded:
  assumes "1 \<le> sint k" "sint k \<le> int (length arr)" "int (length arr) < 2 ^ 31"
  shows "map_option sint (numOfSubarrays arr k threshold) =
    Some (int (length (filter (\<lambda>w. sint (k * threshold) \<le> sint (sum_list w))
                        (windows arr (nat (sint k))))))"
  unfolding numOfSubarrays_count_bounded [OF assms]
  by (rule numOfSubarrays_machine [OF assms(1,2)])

lemma numOfSubarrays_exact_bounded:
  assumes k: "1 \<le> sint k" "sint k \<le> int (length arr)" and len: "int (length arr) < 2 ^ 31"
    and sums: "\<forall>w \<in> set (windows arr (nat (sint k))). in_int_range (isum w)"
    and prod: "in_int_range (sint k * sint threshold)"
  shows "map_option sint (numOfSubarrays arr k threshold) =
    Some (int (card {j. j + nat (sint k) \<le> length arr \<and>
       real_of_int (sint threshold) \<le>
         real_of_int (isum (window arr (nat (sint k)) j)) / real_of_int (sint k)}))"
  unfolding numOfSubarrays_count_bounded [OF k len]
  by (rule numOfSubarrays_exact [OF k sums prod])


lemma maxScore_exact_bounded:
  assumes k: "0 \<le> sint k" "sint k \<le> int (length cp)" and len: "int (length cp) < 2 ^ 31"
    and blocks: "\<forall>w \<in> set (windows cp (length cp - nat (sint k))). in_int_range (isum w)"
    and answer: "in_int_range (take_ends (map sint cp) (nat (sint k)))"
  shows "map_option sint (maxScore cp k) = Some (take_ends (map sint cp) (nat (sint k)))"
  unfolding maxScore_unbounded_eq [OF k(1) len]
  by (rule maxScore_exact [OF k blocks answer])

lemma maximumSubarraySum_exact_bounded:
  assumes "1 \<le> sint k" "sint k \<le> int (length nums)" "int (length nums) < 2 ^ 31"
  shows "map_option sint (maximumSubarraySum nums k)
    = Some (max 0 (max_distinct_window_sum nums (nat (sint k))))"
  unfolding maximumSubarraySum_unbounded_eq [OF assms(1) le_of_less_int32 [OF assms(3)]]
  by (rule maximumSubarraySum_exact [OF assms(1,2)])


lemma findMaxAverage_exact_bounded:
  assumes k: "1 \<le> sint k" "sint k \<le> int (length nums)" and len: "int (length nums) < 2 ^ 31"
    and sums: "\<forall>w \<in> set (windows nums (nat (sint k))). in_int_range (isum w)"
  shows "findMaxAverage fdiv nums k =
    Some (fdiv (Max {isum (window nums (nat (sint k)) j) | j. j + nat (sint k) \<le> length nums})
            (sint k))"
  unfolding findMaxAverage_unbounded_eq [OF k(1) le_of_less_int32 [OF len]]
  by (rule findMaxAverage_exact [OF k sums])

subsection \<open>\<open>k = n\<close>: the length is the value of the \<open>int\<close> \<open>k\<close>\<close>

lemma one_le_of_whole: "xs \<noteq> [] \<Longrightarrow> sint (k :: int32) = int (length xs) \<Longrightarrow> 1 \<le> sint k"
  by (simp add: Suc_leI)

lemma maxVowels_whole_bounded:
  assumes "s \<noteq> []" "sint k = int (length s)"
  shows "maxVowels s k = Some (count_vowels s)"
  unfolding maxVowels_unbounded_eq [OF one_le_of_whole [OF assms]
      le_of_less_int32 [OF length_less_of_sint_eq [OF assms(2)]]]
  by (rule maxVowels_whole [OF assms])

lemma minimumRecolors_whole_bounded:
  assumes "s \<noteq> []" "sint k = int (length s)"
  shows "minimumRecolors s k = Some (count_W s)"
  unfolding minimumRecolors_unbounded_eq [OF one_le_of_whole [OF assms]
      length_less_of_sint_eq [OF assms(2)]]
  by (rule minimumRecolors_whole [OF assms])

lemma numOfSubarrays_whole_bounded:
  assumes "xs \<noteq> []" "sint k = int (length xs)"
  shows "map_option sint (numOfSubarrays xs k threshold)
    = Some (if sint (k * threshold) \<le> sint (sum_list xs) then 1 else 0)"
proof -
  have le: "sint k \<le> int (length xs)" using assms(2) by simp
  show ?thesis
    unfolding numOfSubarrays_count_bounded [OF one_le_of_whole [OF assms] le
        length_less_of_sint_eq [OF assms(2)]]
    by (rule numOfSubarrays_whole [OF assms])
qed

lemma maxScore_whole_bounded:
  assumes "sint k = int (length xs)"
  shows "maxScore xs k = Some (sum_list xs)"
proof -
  have k0: "0 \<le> sint k" using assms by simp
  show ?thesis
    unfolding maxScore_unbounded_eq [OF k0 length_less_of_sint_eq [OF assms]]
    by (rule maxScore_whole [OF assms])
qed

lemma findMaxAverage_whole_bounded:
  assumes "xs \<noteq> []" "sint k = int (length xs)"
  shows "findMaxAverage fdiv xs k = Some (fdiv (sint (sum_list xs)) (sint k))"
  unfolding findMaxAverage_unbounded_eq [OF one_le_of_whole [OF assms]
      le_of_less_int32 [OF length_less_of_sint_eq [OF assms(2)]]]
  by (rule findMaxAverage_whole [OF assms])

lemma maximumSubarraySum_whole_bounded:
  assumes "xs \<noteq> []" "sint k = int (length xs)"
  shows "map_option sint (maximumSubarraySum xs k)
    = Some (if distinct xs then max 0 (isum xs) else 0)"
  unfolding maximumSubarraySum_unbounded_eq [OF one_le_of_whole [OF assms]
      le_of_less_int32 [OF length_less_of_sint_eq [OF assms(2)]]]
  by (rule maximumSubarraySum_whole [OF assms])

subsection \<open>\<open>k = 1\<close>\<close>

lemma maxVowels_single_bounded:
  assumes "s \<noteq> []" "int (length s) < 2 ^ 31"
  shows "maxVowels s 1 = Some (if \<exists>c\<in>set s. is_vowel c then 1 else 0)"
  unfolding maxVowels_unbounded_eq [OF one_le_one le_of_less_int32 [OF assms(2)]]
  by (rule maxVowels_single [OF assms(1)])

lemma minimumRecolors_single_bounded:
  assumes "s \<noteq> []" "int (length s) < 2 ^ 31"
  shows "minimumRecolors s 1 = Some (if \<forall>c\<in>set s. c = CHR ''W'' then 1 else 0)"
  unfolding minimumRecolors_unbounded_eq [OF one_le_one assms(2)]
  by (rule minimumRecolors_single [OF assms(1)])

lemma numOfSubarrays_single_bounded:
  assumes "xs \<noteq> []" "int (length xs) < 2 ^ 31"
  shows "map_option sint (numOfSubarrays xs 1 threshold)
    = Some (int (length (filter (\<lambda>x. sint threshold \<le> sint x) xs)))"
  unfolding numOfSubarrays_count_bounded [OF one_le_one one_le_length [OF assms(1)] assms(2)]
  by (rule numOfSubarrays_single [OF assms(1)])

lemma findMaxAverage_single_bounded:
  assumes "xs \<noteq> []" "int (length xs) < 2 ^ 31"
  shows "findMaxAverage fdiv xs 1 = Some (fdiv (Max (sint ` set xs)) 1)"
  unfolding findMaxAverage_unbounded_eq [OF one_le_one le_of_less_int32 [OF assms(2)]]
  by (rule findMaxAverage_single [OF assms(1)])

lemma maximumSubarraySum_single_bounded:
  assumes "xs \<noteq> []" "int (length xs) < 2 ^ 31"
  shows "map_option sint (maximumSubarraySum xs 1) = Some (max 0 (Max (sint ` set xs)))"
  unfolding maximumSubarraySum_unbounded_eq [OF one_le_one le_of_less_int32 [OF assms(2)]]
  by (rule maximumSubarraySum_single [OF assms(1)])

lemma maxScore_single_bounded:
  assumes "xs \<noteq> []" "int (length xs) < 2 ^ 31"
    and "in_int_range (isum (butlast xs))" "in_int_range (isum (tl xs))"
  shows "map_option sint (maxScore xs 1) = Some (max (sint (hd xs)) (sint (last xs)))"
proof -
  have k0: "0 \<le> sint (1 :: int32)" by simp
  show ?thesis
    unfolding maxScore_unbounded_eq [OF k0 assms(2)]
    by (rule maxScore_single [OF assms(1,3,4)])
qed

section \<open>Sequences of \<open>2 ^ 31\<close> elements and more\<close>

text \<open>\<open>int n = v.size()\<close> of a sequence of \<open>2 ^ 31 + d\<close> elements is negative.\<close>

lemma sint_size_as_int_long:
  assumes "length xs = 2 ^ 31 + d" "d < 2 ^ 31"
  shows "sint (size_as_int xs) = int d - 2 ^ 31"
proof -
  have "(word_of_nat (2 ^ 31 + d) :: int32) = word_of_int (int d - 2 ^ 31)"
  proof -
    have "(word_of_nat (2 ^ 31 + d) :: int32) = word_of_int (int d + 2 ^ 31)"
      by (simp add: add.commute)
    also have "\<dots> = word_of_int (int d - 2 ^ 31) + word_of_int (2 ^ 32)"
      by (simp flip: wi_hom_add)
    also have "(word_of_int (2 ^ 32) :: int32) = 0" by simp
    finally show ?thesis by simp
  qed
  moreover have "sint (word_of_int (int d - 2 ^ 31) :: int32) = int d - 2 ^ 31"
    using assms(2) by (intro sint_int32_of_int) (simp_all add: in_int_range_def)
  ultimately show ?thesis by (simp only: size_as_int_def assms(1))
qed

text \<open>One \<open>W\<close> before \<open>2 ^ 31\<close> characters, \<open>k = 1\<close>: \<open>n\<close> is \<open>- 2147483647\<close>, the
  sliding loop is not entered, and the first character decides.\<close>

lemma minimumRecolors_long:
  assumes "length p = 2 ^ 31"
  shows "minimumRecolors (c # p) 1 = Some (if c = CHR ''W'' then 1 else 0)"
proof -
  have "length (c # p) = 2 ^ 31 + 1" using assms by simp
  then have "sint (size_as_int (c # p)) = int 1 - 2 ^ 31"
    by (rule sint_size_as_int_long) simp
  then have n: "\<not> sint (1 :: int32) < sint (size_as_int (c # p))" by simp
  have first: "minimumRecolors_first (c # p) 1 0 0 = Some (if c = CHR ''W'' then 1 else 0)"
    by (simp add: minimumRecolors_first.simps index_at_def)
  show ?thesis
    unfolding minimumRecolors_def Let_def first
    by (subst minimumRecolors_slide.simps) (simp only: n if_False option.case)
qed

text \<open>\<open>2 ^ 31 + d\<close> cards, \<open>k = 1\<close>: \<open>m\<close> is negative, and
  \<open>reduce(begin, begin + m)\<close> leaves the vector.\<close>

lemma maxScore_long:
  assumes "length xs = 2 ^ 31 + d" "0 < d" "d < 2 ^ 31"
  shows "maxScore xs 1 = None"
proof -
  have n: "sint (size_as_int xs) = int d - 2 ^ 31"
    by (rule sint_size_as_int_long [OF assms(1,3)])
  have "sint (size_as_int xs - 1) = signed_take_bit 31 (sint (size_as_int xs) - 1)"
    by (simp add: sint_word_ariths)
  also have "\<dots> = sint (size_as_int xs) - 1"
    unfolding n using assms(2,3) by (intro signed_take_bit_int_eq_self) simp_all
  finally have "sint (size_as_int xs - 1) < 0" unfolding n using assms(3) by simp
  then have "reduce xs (sint (size_as_int xs - 1)) = None" by (simp add: reduce_def)
  then show ?thesis by (simp add: maxScore_def Let_def)
qed


section \<open>Inputs of more than \<open>2 ^ 31\<close> elements\<close>

text \<open>A block of \<open>2 ^ 31\<close> copies of one element, followed by more elements.\<close>

lemma take_prefix: "length p = N \<Longrightarrow> take N (p @ q) = p"
  by simp

lemma take_long_prefix: "take (2 ^ 31) (replicate (2 ^ 31) c @ q) = replicate (2 ^ 31) c"
  by (rule take_prefix [OF length_replicate])

lemma length_long: "2 ^ 31 \<le> length (replicate (2 ^ 31) c @ q)"
  by (simp only: length_append length_replicate le_add1)

lemma set_long_prefix: "set (replicate (2 ^ 31) c) = {c}"
proof -
  have "(2 :: nat) ^ 31 \<noteq> 0" by simp
  then show ?thesis by (rule set_replicate)
qed

lemma append_nonempty: "p @ [x] \<noteq> []"
  by simp

lemma last_in_set: "x \<in> set (p @ [x])"
  by simp

lemma one_le_length_append: "sint (1 :: int32) \<le> int (length (p @ [x]))"
  by (rule one_le_length [OF append_nonempty])

lemma maxVowels_long_run:
  assumes "\<not> is_vowel c"
  shows "maxVowels (replicate (2 ^ 31) c @ q) 1 = Some 0"
proof -
  have "(\<exists>x\<in>{c}. is_vowel x) = False" using assms by blast
  then show ?thesis
    using maxVowels_single_long [OF length_long, of c q]
    by (simp only: take_long_prefix set_long_prefix if_False)
qed

lemma max_vowels_of_singletons:
  assumes "s \<noteq> []"
  shows "Max {count_vowels (window s (nat (sint (1 :: int32))) j) | j.
            j + nat (sint (1 :: int32)) \<le> length s}
    = (if \<exists>c\<in>set s. is_vowel c then 1 else 0)"
proof -
  have "Max ((\<lambda>c. count_vowels [c]) ` set s) = (if \<exists>c\<in>set s. is_vowel c then 1 else 0)"
    using assms by (intro Max_indicator) (simp_all add: count_vowels_single)
  moreover have "{count_vowels (window s (nat (sint (1 :: int32))) j) | j.
            j + nat (sint (1 :: int32)) \<le> length s} = (\<lambda>c. count_vowels [c]) ` set s"
    unfolding nat_sint_one by (rule singleton_window_values)
  ultimately show ?thesis by (simp only:)
qed

lemma max_vowels_long:
  assumes "is_vowel x"
  shows "Max {count_vowels (window (p @ [x]) (nat (sint (1 :: int32))) j) | j.
            j + nat (sint (1 :: int32)) \<le> length (p @ [x])} = 1"
proof -
  have "x \<in> set (p @ [x])" by (rule last_in_set)
  then have ex: "\<exists>c\<in>set (p @ [x]). is_vowel c" using assms by (rule bexI [rotated])
  have "Max {count_vowels (window (p @ [x]) (nat (sint (1 :: int32))) j) | j.
            j + nat (sint (1 :: int32)) \<le> length (p @ [x])}
      = (if \<exists>c\<in>set (p @ [x]). is_vowel c then 1 else 0)"
    by (rule max_vowels_of_singletons [OF append_nonempty])
  also have "\<dots> = 1" using ex by (rule if_P)
  finally show ?thesis .
qed

lemma min_non_B_of_singletons:
  assumes "s \<noteq> []"
  shows "Min {count_non_B (window s (nat (sint (1 :: int32))) j) | j.
            j + nat (sint (1 :: int32)) \<le> length s}
    = (if \<forall>c\<in>set s. c \<noteq> CHR ''B'' then 1 else 0)"
proof -
  have "Min ((\<lambda>c. count_non_B [c]) ` set s) = (if \<forall>c\<in>set s. c \<noteq> CHR ''B'' then 1 else 0)"
    using assms by (intro Min_indicator) (simp_all add: count_non_B_def)
  moreover have "{count_non_B (window s (nat (sint (1 :: int32))) j) | j.
            j + nat (sint (1 :: int32)) \<le> length s} = (\<lambda>c. count_non_B [c]) ` set s"
    unfolding nat_sint_one by (rule singleton_window_values)
  ultimately show ?thesis by (simp only:)
qed

lemma nat_one_le_length_append: "nat (sint (1 :: int32)) \<le> length (p @ [x])"
  by simp

lemma bf_maxVowels_long:
  assumes "is_vowel x"
  shows "bf_maxVowels (p @ [x]) (nat (sint (1 :: int32))) = 1"
  unfolding bf_maxVowels_eq [OF nat_one_le_length_append]
  by (rule max_vowels_long [OF assms])

lemma replicate_nonempty: "n \<noteq> 0 \<Longrightarrow> replicate n c \<noteq> []"
  by simp

lemma Max_sint_prefix:
  assumes "set p = {c}" "sint c \<le> sint x"
  shows "Max (sint ` set (p @ [x])) = sint x"
  using assms by simp

lemma Max_sint_long:
  assumes "sint c \<le> sint x"
  shows "Max (sint ` set (replicate (2 ^ 31) c @ [x])) = sint x"
  by (rule Max_sint_prefix [OF set_long_prefix assms])

lemma maximumSubarraySum_long_run:
  assumes "sint c \<le> 0"
  shows "map_option sint (maximumSubarraySum (replicate (2 ^ 31) c @ q) 1) = Some 0"
proof -
  have "max 0 (Max (sint ` {c})) = 0" using assms by simp
  then show ?thesis
    using maximumSubarraySum_single_long [OF length_long, of c q]
    by (simp only: take_long_prefix set_long_prefix)
qed

lemma max_distinct_window_sum_of_singletons:
  assumes "xs \<noteq> []"
  shows "max_distinct_window_sum xs (nat (sint (1 :: int32))) = Max (sint ` set xs)"
  unfolding nat_sint_one
  using assms by (simp add: max_distinct_window_sum_def distinct_window_sums_single)

lemma max_distinct_window_sum_long:
  assumes "sint c \<le> sint x"
  shows "max_distinct_window_sum (replicate (2 ^ 31) c @ [x]) (nat (sint (1 :: int32))) = sint x"
  unfolding max_distinct_window_sum_of_singletons [OF append_nonempty]
  by (rule Max_sint_long [OF assms])

lemma findMaxAverage_long_run:
  "findMaxAverage fdiv (replicate (2 ^ 31) c @ q) 1 = Some (fdiv (sint c) 1)"
proof -
  have "Max (sint ` {c}) = sint c" by simp
  then show ?thesis
    using findMaxAverage_single_long [OF length_long, of fdiv c q]
    by (simp only: take_long_prefix set_long_prefix)
qed

lemma max_window_sum_of_singletons:
  "Max {isum (window xs (nat (sint (1 :: int32))) j) | j. j + nat (sint (1 :: int32)) \<le> length xs}
    = Max (sint ` set xs)"
proof -
  have "{isum (window xs (nat (sint (1 :: int32))) j) | j. j + nat (sint (1 :: int32)) \<le> length xs}
      = (\<lambda>x. isum [x]) ` set xs"
    unfolding nat_sint_one by (rule singleton_window_values)
  also have "\<dots> = sint ` set xs" by (simp add: isum_def)
  finally show ?thesis by (simp only:)
qed

lemma max_window_sum_long:
  assumes "sint c \<le> sint x"
  shows "Max {isum (window (replicate (2 ^ 31) c @ [x]) (nat (sint (1 :: int32))) j) | j.
      j + nat (sint (1 :: int32)) \<le> length (replicate (2 ^ 31) c @ [x])} = sint x"
  unfolding max_window_sum_of_singletons
  by (rule Max_sint_long [OF assms])

lemma maxScore_long_run: "maxScore (replicate (2 ^ 31 + 5) c) 1 = None"
  by (rule maxScore_long [OF length_replicate]) simp_all

lemma one_le_length_replicate: "n \<noteq> 0 \<Longrightarrow> sint (1 :: int32) \<le> int (length (replicate n c))"
  by (rule one_le_length [OF replicate_nonempty])

lemma take_ends_replicate_one:
  "n \<noteq> 0 \<Longrightarrow> take_ends (map sint (replicate n (c :: int32))) (nat (sint (1 :: int32))) = sint c"
  unfolding nat_sint_one map_replicate by (simp add: take_ends_one)

lemma long_nonzero: "(2 :: nat) ^ 31 + 5 \<noteq> 0"
  by simp

lemma cons_nonempty: "x # xs \<noteq> []"
  by simp

lemma minimumRecolors_long_W:
  "length p = 2 ^ 31 \<Longrightarrow> minimumRecolors (CHR ''W'' # p) 1 = Some 1"
  using minimumRecolors_long [of p "CHR ''W''"] by simp

lemma set_cons_subset: "set p = {b} \<Longrightarrow> set (a # p) \<subseteq> {a, b}"
  by simp

lemma min_non_B_with_B:
  assumes "CHR ''B'' \<in> set s"
  shows "Min {count_non_B (window s (nat (sint (1 :: int32))) j) | j.
            j + nat (sint (1 :: int32)) \<le> length s} = 0"
proof -
  have ne: "s \<noteq> []" using assms by auto
  have ex: "\<not> (\<forall>c\<in>set s. c \<noteq> CHR ''B'')" using assms by blast
  have "Min {count_non_B (window s (nat (sint (1 :: int32))) j) | j.
            j + nat (sint (1 :: int32)) \<le> length s}
      = (if \<forall>c\<in>set s. c \<noteq> CHR ''B'' then 1 else 0)"
    by (rule min_non_B_of_singletons [OF ne])
  also have "\<dots> = 0" using ex by (rule if_not_P)
  finally show ?thesis .
qed

lemma B_in_long: "CHR ''B'' \<in> set (c # replicate (2 ^ 31) (CHR ''B''))"
proof -
  have "CHR ''B'' \<in> set (replicate (2 ^ 31) (CHR ''B''))"
    unfolding set_long_prefix by (rule singletonI)
  then show ?thesis by (rule list.set_intros(2))
qed

lemma filter_replicate_none: "\<not> P c \<Longrightarrow> filter P (replicate n c) = []"
  by simp

lemma numOfSubarrays_long_run:
  assumes "\<not> sint threshold \<le> sint c"
  shows "numOfSubarrays (replicate (2 ^ 31) c @ q) 1 threshold = Some 0"
proof -
  have none: "filter (\<lambda>x. sint threshold \<le> sint x) (replicate (2 ^ 31) c) = []"
    using assms by (rule filter_replicate_none)
  have "(word_of_int (int (length ([] :: int32 list))) :: int32) = 0" by simp
  then show ?thesis
    using numOfSubarrays_single_long [OF length_long [of c q], of threshold]
    by (simp only: take_long_prefix none)
qed

lemma count_mean_ge_long:
  assumes "sint c < sint threshold" "sint threshold \<le> sint x"
  shows "int (card {j. j + nat (sint (1 :: int32)) \<le> length (replicate n c @ [x]) \<and>
        real_of_int (sint threshold) \<le>
          real_of_int (isum (window (replicate n c @ [x]) (nat (sint (1 :: int32))) j))
            / real_of_int (sint (1 :: int32))}) = 1"
proof -
  have "{j. j + nat (sint (1 :: int32)) \<le> length (replicate n c @ [x]) \<and>
        real_of_int (sint threshold) \<le>
          real_of_int (isum (window (replicate n c @ [x]) (nat (sint (1 :: int32))) j))
            / real_of_int (sint (1 :: int32))} = {n}"
  proof (rule set_eqI)
    fix j
    have w: "isum (window (replicate n c @ [x]) (Suc 0) j) = (if j < n then sint c else sint x)"
      if "j \<le> n"
    proof -
      have "j < length (replicate n c @ [x])" using that by simp
      then have "window (replicate n c @ [x]) (Suc 0) j = [(replicate n c @ [x]) ! j]"
        by (rule singleton_window)
      then show ?thesis using that by (simp add: isum_def nth_append)
    qed
    have one: "real_of_int (sint (1 :: int32)) = 1" by simp
    have "j + Suc 0 \<le> length (replicate n c @ [x])
        \<and> sint threshold \<le> isum (window (replicate n c @ [x]) (Suc 0) j) \<longleftrightarrow> j = n"
    proof (cases "j \<le> n")
      case True
      then show ?thesis using assms by (auto simp: w)
    next
      case False
      then show ?thesis by simp
    qed
    then show "j \<in> {j. j + nat (sint (1 :: int32)) \<le> length (replicate n c @ [x]) \<and>
        real_of_int (sint threshold) \<le>
          real_of_int (isum (window (replicate n c @ [x]) (nat (sint (1 :: int32))) j))
            / real_of_int (sint (1 :: int32))} \<longleftrightarrow> j \<in> {n}"
      by (simp only: mem_Collect_eq nat_sint_one one div_by_1 of_int_le_iff singleton_iff)
  qed
  then show ?thesis by (simp only: card.empty card_insert_disjoint finite.emptyI empty_iff
        not_False_eq_True of_nat_Suc of_nat_0 add_0)
qed


section \<open>The claims\<close>

subsection \<open>C5: maxVowels\<close>

lemma maxVowels_example: "maxVowels ''abciiidef'' 3 = Some 3"
  by (simp add: maxVowels_def maxVowels_loop.simps index_at_def lt_size_def is_vowel_def Let_def)

text \<open>
  Claim C5, as the spec states it: for every string \<open>s\<close> of length \<open>n\<close> and every \<open>k\<close>
  with \<open>1 \<le> k \<le> n\<close>, \<open>maxVowels s k\<close> returns the maximum number of vowels in any
  window of \<open>k\<close> consecutive characters of \<open>s\<close>. The index \<open>i\<close> is an \<open>int\<close>. On the
  string of \<open>2 ^ 31\<close> characters \<open>b\<close> followed by one \<open>a\<close>, with \<open>k = 1\<close>, \<open>i\<close> reaches
  \<open>2 ^ 31 - 1\<close>; the next \<open>i++\<close> leaves the range of \<open>int\<close> and gives \<open>- 2 ^ 31\<close>, the
  test \<open>i < s.size()\<close> fails, and the function returns 0 without having read the last
  character. The window that holds the \<open>a\<close> has one vowel.
\<close>

theorem maxVowels_long_input_counterexample:
  "1 \<le> sint (1 :: int32)
   \<and> sint (1 :: int32) \<le> int (length (replicate (2 ^ 31) (CHR ''b'') @ ''a''))
   \<and> maxVowels (replicate (2 ^ 31) (CHR ''b'') @ ''a'') 1 = Some 0
   \<and> Max {count_vowels (window (replicate (2 ^ 31) (CHR ''b'') @ ''a'') (nat (sint (1 :: int32))) j)
          | j. j + nat (sint (1 :: int32)) \<le> length (replicate (2 ^ 31) (CHR ''b'') @ ''a'')} = 1"
proof -
  have v: "is_vowel (CHR ''a'')" by (simp add: is_vowel_def)
  have nv: "\<not> is_vowel (CHR ''b'')" by (simp add: is_vowel_def)
  show ?thesis
    by (intro conjI one_le_one one_le_length_append maxVowels_long_run [OF nv]
        max_vowels_long [OF v])
qed

text \<open>
  Claim C5, amended: for every string \<open>s\<close> of length \<open>n\<close> below \<open>2 ^ 31\<close> and every
  \<open>k\<close> with \<open>1 \<le> k \<le> n\<close>, \<open>maxVowels s k\<close> returns the maximum number of vowels
  (\<open>a\<close>, \<open>e\<close>, \<open>i\<close>, \<open>o\<close>, \<open>u\<close>) in any window of \<open>k\<close> consecutive characters
  of \<open>s\<close>; in particular \<open>maxVowels "abciiidef" 3\<close> is 3.
\<close>

theorem maxVowels_is_max_window_vowel_count:
  assumes "1 \<le> sint k" and "sint k \<le> int (length s)" and "int (length s) < 2 ^ 31"
  shows "maxVowels s k =
      Some (Max {count_vowels (window s (nat (sint k)) j) | j. j + nat (sint k) \<le> length s})
    \<and> maxVowels ''abciiidef'' 3 = Some 3"
  using maxVowels_result_bounded [OF assms] maxVowels_example by (rule conjI)

theorem maxVowels_is_max_window_vowel_count_witness:
  "1 \<le> sint (2 :: int32) \<and> sint (2 :: int32) \<le> int (length ''leetcode'')
   \<and> int (length ''leetcode'') < 2 ^ 31
   \<and> maxVowels ''leetcode'' 2 =
      Some (Max {count_vowels (window ''leetcode'' (nat (sint (2 :: int32))) j) | j.
                 j + nat (sint (2 :: int32)) \<le> length ''leetcode''})
   \<and> maxVowels ''leetcode'' 2 = Some 2"
proof -
  have h1: "1 \<le> sint (2 :: int32)" by simp
  have h2: "sint (2 :: int32) \<le> int (length ''leetcode'')" by simp
  have h3: "int (length ''leetcode'') < 2 ^ 31" by simp
  have run: "maxVowels ''leetcode'' 2 = Some 2"
    by (simp add: maxVowels_def maxVowels_loop.simps index_at_def lt_size_def is_vowel_def Let_def)
  from maxVowels_is_max_window_vowel_count [OF h1 h2 h3] h1 h2 h3 run show ?thesis by blast
qed

subsection \<open>C6: minimumRecolors\<close>

lemma count_non_B_eq_count_W:
  assumes "set w \<subseteq> {CHR ''W'', CHR ''B''}"
  shows "count_non_B w = count_W w"
proof -
  have "filter (\<lambda>c. c \<noteq> CHR ''B'') w = filter (\<lambda>c. c = CHR ''W'') w"
    using assms by (intro filter_cong) auto
  then show ?thesis by (simp add: count_non_B_def count_W_def)
qed

lemma set_window_subset: "set (window xs k j) \<subseteq> set xs"
  unfolding window_def by (meson set_take_subset set_drop_subset subset_trans)

lemma minimumRecolors_example: "minimumRecolors ''WBBWWBBWBW'' 7 = Some 3"
  by (simp add: minimumRecolors_def minimumRecolors_first.simps minimumRecolors_slide.simps
      index_at_def size_as_int_def Let_def)

text \<open>
  Claim C6, as the spec states it: for every string \<open>blocks\<close> over \<open>W\<close> and \<open>B\<close> of
  length \<open>n\<close> and every \<open>k\<close> with \<open>1 \<le> k \<le> n\<close>, \<open>minimumRecolors blocks k\<close> returns
  the minimum number of characters other than \<open>B\<close> in a window of \<open>k\<close> consecutive
  characters, in both copies of the file. The length is stored by \<open>int n = blocks.size()\<close>.
  On one \<open>W\<close> followed by \<open>2 ^ 31\<close> characters \<open>B\<close>, with \<open>k = 1\<close>, \<open>n\<close> is
  \<open>- 2147483647\<close>: the sliding loop \<open>for (int r = k; r < n; r++)\<close> is not entered, and
  both copies return the count of the first window, 1. Every other window has no
  character other than \<open>B\<close>.
\<close>

theorem minimumRecolors_long_input_counterexample:
  "set (CHR ''W'' # replicate (2 ^ 31) (CHR ''B'')) \<subseteq> {CHR ''W'', CHR ''B''}
   \<and> 1 \<le> sint (1 :: int32)
   \<and> sint (1 :: int32) \<le> int (length (CHR ''W'' # replicate (2 ^ 31) (CHR ''B'')))
   \<and> minimumRecolors (CHR ''W'' # replicate (2 ^ 31) (CHR ''B'')) 1 = Some 1
   \<and> minimumRecolors_dir1 (CHR ''W'' # replicate (2 ^ 31) (CHR ''B'')) 1 = Some 1
   \<and> Min {count_non_B (window (CHR ''W'' # replicate (2 ^ 31) (CHR ''B'')) (nat (sint (1 :: int32))) j)
          | j. j + nat (sint (1 :: int32)) \<le> length (CHR ''W'' # replicate (2 ^ 31) (CHR ''B''))} = 0"
proof -
  have run: "minimumRecolors (CHR ''W'' # replicate (2 ^ 31) (CHR ''B'')) 1 = Some 1"
    by (rule minimumRecolors_long_W [OF length_replicate])
  then have run1: "minimumRecolors_dir1 (CHR ''W'' # replicate (2 ^ 31) (CHR ''B'')) 1 = Some 1"
    by (simp only: minimumRecolors_dir1_eq)
  show ?thesis
    by (intro conjI set_cons_subset [OF set_long_prefix] one_le_one
        one_le_length [OF cons_nonempty] run run1 min_non_B_with_B [OF B_in_long])
qed

text \<open>
  Claim C6, amended: for every string \<open>blocks\<close> over \<open>W\<close> and \<open>B\<close> of length \<open>n\<close> below
  \<open>2 ^ 31\<close> and every \<open>k\<close> with \<open>1 \<le> k \<le> n\<close>, \<open>minimumRecolors blocks k\<close> returns
  the minimum number of characters other than \<open>B\<close> in a window of \<open>k\<close> consecutive
  characters, which is the minimum number of \<open>W\<close> in such a window;
  \<open>minimumRecolors "WBBWWBBWBW" 7\<close> is 3; and the second copy of the function in the
  repository returns the same value (on every input).
\<close>

theorem minimumRecolors_is_min_window_non_B_count:
  assumes "set blocks \<subseteq> {CHR ''W'', CHR ''B''}"
    and "1 \<le> sint k" and "sint k \<le> int (length blocks)" and "int (length blocks) < 2 ^ 31"
  shows "minimumRecolors blocks k =
      Some (Min {count_non_B (window blocks (nat (sint k)) j) | j.
                 j + nat (sint k) \<le> length blocks})
    \<and> Min {count_non_B (window blocks (nat (sint k)) j) | j. j + nat (sint k) \<le> length blocks}
      = Min {count_W (window blocks (nat (sint k)) j) | j. j + nat (sint k) \<le> length blocks}
    \<and> minimumRecolors_dir1 blocks k = minimumRecolors blocks k
    \<and> minimumRecolors ''WBBWWBBWBW'' 7 = Some 3
    \<and> minimumRecolors_dir1 ''WBBWWBBWBW'' 7 = Some 3"
proof -
  have same: "count_non_B (window blocks (nat (sint k)) j) = count_W (window blocks (nat (sint k)) j)"
    for j
    using assms(1) set_window_subset [of blocks "nat (sint k)" j]
    by (intro count_non_B_eq_count_W) blast
  have sets: "{count_non_B (window blocks (nat (sint k)) j) | j. j + nat (sint k) \<le> length blocks}
      = {count_W (window blocks (nat (sint k)) j) | j. j + nat (sint k) \<le> length blocks}"
    by (simp only: same)
  show ?thesis
    using minimumRecolors_result_bounded [OF assms(2,3,4)] minimumRecolors_example
    by (simp only: sets minimumRecolors_dir1_eq simp_thms)
qed

theorem minimumRecolors_is_min_window_non_B_count_witness:
  "set ''WBWBBBW'' \<subseteq> {CHR ''W'', CHR ''B''}
   \<and> 1 \<le> sint (2 :: int32) \<and> sint (2 :: int32) \<le> int (length ''WBWBBBW'')
   \<and> int (length ''WBWBBBW'') < 2 ^ 31
   \<and> minimumRecolors ''WBWBBBW'' 2 =
      Some (Min {count_non_B (window ''WBWBBBW'' (nat (sint (2 :: int32))) j) | j.
                 j + nat (sint (2 :: int32)) \<le> length ''WBWBBBW''})
   \<and> minimumRecolors ''WBWBBBW'' 2 = Some 0
   \<and> minimumRecolors_dir1 ''WBWBBBW'' 2 = Some 0"
proof -
  have h0: "set ''WBWBBBW'' \<subseteq> {CHR ''W'', CHR ''B''}" by simp
  have h1: "1 \<le> sint (2 :: int32)" by simp
  have h2: "sint (2 :: int32) \<le> int (length ''WBWBBBW'')" by simp
  have h3: "int (length ''WBWBBBW'') < 2 ^ 31" by simp
  have run: "minimumRecolors ''WBWBBBW'' 2 = Some 0"
    by (simp add: minimumRecolors_def minimumRecolors_first.simps minimumRecolors_slide.simps
        index_at_def size_as_int_def Let_def)
  from minimumRecolors_is_min_window_non_B_count [OF h0 h1 h2 h3] h0 h1 h2 h3 run
  show ?thesis by metis
qed

subsection \<open>C4: numOfSubarrays\<close>

lemma numOfSubarrays_example: "numOfSubarrays [2, 2, 2, 2, 5, 5, 5, 8] 3 4 = Some 3"
  by (simp add: numOfSubarrays_def numOfSubarrays_loop.simps index_at_def lt_size_def Let_def)

lemma numOfSubarrays_overflow_run: "numOfSubarrays [2147483647, 1] 2 0 = Some 0"
  by (simp add: numOfSubarrays_def numOfSubarrays_loop.simps index_at_def lt_size_def Let_def)

lemma numOfSubarrays_product_overflow_run: "numOfSubarrays [0, 0] 2 1073741824 = Some 1"
  by (simp add: numOfSubarrays_def numOfSubarrays_loop.simps index_at_def lt_size_def Let_def)

text \<open>
  Claim C4, as the spec states it: for every integer sequence \<open>arr\<close>, every \<open>k\<close> with
  \<open>1 \<le> k \<le> n\<close> and every threshold, \<open>numOfSubarrays\<close> returns the number of windows
  of length \<open>k\<close> whose mean is at least the threshold. The running sum \<open>s\<close> and the
  product \<open>k * threshold\<close> are \<open>int\<close>. On \<open>[2147483647, 1]\<close> with \<open>k = 2\<close> and
  threshold 0 the sum wraps to \<open>- 2147483648\<close>: the function returns 0, and the one
  window has mean 1073741824, which is at least 0. On \<open>[0, 0]\<close> with \<open>k = 2\<close> and
  threshold 1073741824 the product wraps to \<open>- 2147483648\<close>: the function returns 1,
  and the one window has mean 0, which is below the threshold. The index \<open>i\<close> is an
  \<open>int\<close>: on \<open>2 ^ 31\<close> elements 0 followed by one 1, with \<open>k = 1\<close> and threshold 1,
  the loop ends when \<open>i++\<close> leaves the range of \<open>int\<close>, before the last element is
  read, and the function returns 0, where the last window has mean 1.
\<close>

theorem numOfSubarrays_overflow_counterexample:
  "1 \<le> sint (2 :: int32) \<and> sint (2 :: int32) \<le> int (length [2147483647, 1 :: int32])
   \<and> numOfSubarrays [2147483647, 1] 2 0 = Some 0
   \<and> int (card {j. j + nat (sint (2 :: int32)) \<le> length [2147483647, 1 :: int32] \<and>
        real_of_int (sint (0 :: int32)) \<le>
          real_of_int (isum (window [2147483647, 1] (nat (sint (2 :: int32))) j))
            / real_of_int (sint (2 :: int32))}) = 1
   \<and> sint (2 :: int32) \<le> int (length [0, 0 :: int32])
   \<and> numOfSubarrays [0, 0] 2 1073741824 = Some 1
   \<and> int (card {j. j + nat (sint (2 :: int32)) \<le> length [0, 0 :: int32] \<and>
        real_of_int (sint (1073741824 :: int32)) \<le>
          real_of_int (isum (window [0, 0] (nat (sint (2 :: int32))) j))
            / real_of_int (sint (2 :: int32))}) = 0
   \<and> sint (1 :: int32) \<le> int (length (replicate (2 ^ 31) (0 :: int32) @ [1]))
   \<and> numOfSubarrays (replicate (2 ^ 31) 0 @ [1]) 1 1 = Some 0
   \<and> int (card {j. j + nat (sint (1 :: int32)) \<le> length (replicate (2 ^ 31) (0 :: int32) @ [1]) \<and>
        real_of_int (sint (1 :: int32)) \<le>
          real_of_int (isum (window (replicate (2 ^ 31) (0 :: int32) @ [1]) (nat (sint (1 :: int32))) j))
            / real_of_int (sint (1 :: int32))}) = 1"
proof -
  have below: "sint (0 :: int32) < sint (1 :: int32)" by simp
  then have not_ge: "\<not> sint (1 :: int32) \<le> sint (0 :: int32)" by simp
  have long: "sint (1 :: int32) \<le> int (length (replicate (2 ^ 31) (0 :: int32) @ [1]))
   \<and> numOfSubarrays (replicate (2 ^ 31) 0 @ [1]) 1 1 = Some 0
   \<and> int (card {j. j + nat (sint (1 :: int32)) \<le> length (replicate (2 ^ 31) (0 :: int32) @ [1]) \<and>
        real_of_int (sint (1 :: int32)) \<le>
          real_of_int (isum (window (replicate (2 ^ 31) (0 :: int32) @ [1]) (nat (sint (1 :: int32))) j))
            / real_of_int (sint (1 :: int32))}) = 1"
    by (intro conjI one_le_length_append numOfSubarrays_long_run [OF not_ge]
        count_mean_ge_long [OF below order_refl])
  have "{j. j + nat (sint (2 :: int32)) \<le> length [2147483647, 1 :: int32] \<and>
        real_of_int (sint (0 :: int32)) \<le>
          real_of_int (isum (window [2147483647, 1] (nat (sint (2 :: int32))) j))
            / real_of_int (sint (2 :: int32))} = {0}"
    by (auto simp: window_def isum_def)
  moreover have "{j. j + nat (sint (2 :: int32)) \<le> length [0, 0 :: int32] \<and>
        real_of_int (sint (1073741824 :: int32)) \<le>
          real_of_int (isum (window [0, 0] (nat (sint (2 :: int32))) j))
            / real_of_int (sint (2 :: int32))} = {}"
    by (auto simp: window_def isum_def)
  ultimately have short: "1 \<le> sint (2 :: int32) \<and> sint (2 :: int32) \<le> int (length [2147483647, 1 :: int32])
   \<and> numOfSubarrays [2147483647, 1] 2 0 = Some 0
   \<and> int (card {j. j + nat (sint (2 :: int32)) \<le> length [2147483647, 1 :: int32] \<and>
        real_of_int (sint (0 :: int32)) \<le>
          real_of_int (isum (window [2147483647, 1] (nat (sint (2 :: int32))) j))
            / real_of_int (sint (2 :: int32))}) = 1
   \<and> sint (2 :: int32) \<le> int (length [0, 0 :: int32])
   \<and> numOfSubarrays [0, 0] 2 1073741824 = Some 1
   \<and> int (card {j. j + nat (sint (2 :: int32)) \<le> length [0, 0 :: int32] \<and>
        real_of_int (sint (1073741824 :: int32)) \<le>
          real_of_int (isum (window [0, 0] (nat (sint (2 :: int32))) j))
            / real_of_int (sint (2 :: int32))}) = 0"
    using numOfSubarrays_overflow_run numOfSubarrays_product_overflow_run by simp
  from short long show ?thesis by (elim conjE) (intro conjI)
qed

text \<open>
  Claim C4, amended: the statement holds whenever \<open>arr\<close> has fewer than \<open>2 ^ 31\<close>
  elements and the exact sum of every window of length \<open>k\<close> and the exact product
  \<open>k * threshold\<close> are values of an \<open>int\<close>; and
  \<open>numOfSubarrays [2,2,2,2,5,5,5,8] 3 4\<close> is 3.
\<close>

theorem numOfSubarrays_counts_windows_with_mean_ge:
  assumes "1 \<le> sint k" and "sint k \<le> int (length arr)" and "int (length arr) < 2 ^ 31"
    and "\<forall>w \<in> set (windows arr (nat (sint k))). in_int_range (isum w)"
    and "in_int_range (sint k * sint threshold)"
  shows "map_option sint (numOfSubarrays arr k threshold) =
      Some (int (card {j. j + nat (sint k) \<le> length arr \<and>
         real_of_int (sint threshold) \<le>
           real_of_int (isum (window arr (nat (sint k)) j)) / real_of_int (sint k)}))
    \<and> numOfSubarrays [2, 2, 2, 2, 5, 5, 5, 8] 3 4 = Some 3"
  using numOfSubarrays_exact_bounded [OF assms] numOfSubarrays_example by (rule conjI)

theorem numOfSubarrays_counts_windows_with_mean_ge_witness:
  "1 \<le> sint (2 :: int32) \<and> sint (2 :: int32) \<le> int (length [11, 13, 17 :: int32])
   \<and> int (length [11, 13, 17 :: int32]) < 2 ^ 31
   \<and> list_all in_int_range (map isum (windows [11, 13, 17 :: int32] (nat (sint (2 :: int32)))))
   \<and> in_int_range (sint (2 :: int32) * sint (13 :: int32))
   \<and> map_option sint (numOfSubarrays [11, 13, 17] 2 13) =
      Some (int (card {j. j + nat (sint (2 :: int32)) \<le> length [11, 13, 17 :: int32] \<and>
         real_of_int (sint (13 :: int32)) \<le>
           real_of_int (isum (window [11, 13, 17] (nat (sint (2 :: int32))) j))
             / real_of_int (sint (2 :: int32))}))
   \<and> numOfSubarrays [11, 13, 17] 2 13 = Some 1"
proof -
  have h1: "1 \<le> sint (2 :: int32)" by simp
  have h2: "sint (2 :: int32) \<le> int (length [11, 13, 17 :: int32])" by simp
  have hl: "int (length [11, 13, 17 :: int32]) < 2 ^ 31" by simp
  have h3l: "list_all in_int_range (map isum (windows [11, 13, 17 :: int32] (nat (sint (2 :: int32)))))"
    by (simp add: windows_def window_def isum_def in_int_range_def upt_rec)
  then have h3: "\<forall>w \<in> set (windows [11, 13, 17 :: int32] (nat (sint (2 :: int32)))). in_int_range (isum w)"
    by (simp add: list_all_iff)
  have h4: "in_int_range (sint (2 :: int32) * sint (13 :: int32))"
    by (simp add: in_int_range_def)
  have run: "numOfSubarrays [11, 13, 17] 2 13 = Some 1"
    by (simp add: numOfSubarrays_def numOfSubarrays_loop.simps index_at_def lt_size_def Let_def)
  from numOfSubarrays_counts_windows_with_mean_ge [OF h1 h2 hl h3 h4] h1 h2 hl h3l h4 run
  show ?thesis by blast
qed

subsection \<open>C2: maxScore\<close>

lemma maxScore_example: "maxScore [1, 79, 80, 1, 1, 1, 200, 1] 3 = Some 202"
  by (simp add: maxScore_def maxScore_loop.simps index_at_def size_as_int_def Let_def
      reduce_def smin_def)

lemma maxScore_overflow_run: "maxScore [2147483647, 1] 2 = Some (- 2147483648)"
  by (simp add: maxScore_def maxScore_loop.simps index_at_def size_as_int_def Let_def
      reduce_def smin_def)

lemma maxScore_block_overflow_run: "maxScore [2147483647, 1, 0] 1 = Some 0"
  by (simp add: maxScore_def maxScore_loop.simps index_at_def size_as_int_def Let_def
      reduce_def smin_def)

text \<open>
  Claim C2, as the spec states it: for every integer sequence \<open>cardPoints\<close> and every
  \<open>k\<close> with \<open>1 \<le> k \<le> n\<close>, \<open>maxScore\<close> returns the largest total of \<open>k\<close> cards
  taken from the two ends. The function computes and returns \<open>int\<close>. On
  \<open>[2147483647, 1]\<close> with \<open>k = 2\<close> the largest total is 2147483648, which no \<open>int\<close>
  holds, and the function returns \<open>- 2147483648\<close>. On \<open>[2147483647, 1, 0]\<close> with
  \<open>k = 1\<close> the largest total is the first card, 2147483647; the sum of the block of the
  first two cards wraps to \<open>- 2147483648\<close> and is taken for the minimum, and the
  function returns 0. On \<open>2 ^ 31 + 5\<close> cards of 0 points with \<open>k = 1\<close> the largest
  total is 0; \<open>int n = cardPoints.size()\<close> is \<open>- 2147483643\<close>, \<open>m\<close> is negative, and
  \<open>reduce(cardPoints.begin(), cardPoints.begin() + m)\<close> reads outside the vector.
\<close>

theorem maxScore_overflow_counterexample:
  "1 \<le> sint (2 :: int32) \<and> sint (2 :: int32) \<le> int (length [2147483647, 1 :: int32])
   \<and> map_option sint (maxScore [2147483647, 1] 2) = Some (- 2147483648)
   \<and> take_ends (map sint [2147483647, 1 :: int32]) (nat (sint (2 :: int32))) = 2147483648
   \<and> 1 \<le> sint (1 :: int32) \<and> sint (1 :: int32) \<le> int (length [2147483647, 1, 0 :: int32])
   \<and> map_option sint (maxScore [2147483647, 1, 0] 1) = Some 0
   \<and> take_ends (map sint [2147483647, 1, 0 :: int32]) (nat (sint (1 :: int32))) = 2147483647
   \<and> sint (1 :: int32) \<le> int (length (replicate (2 ^ 31 + 5) (0 :: int32)))
   \<and> maxScore (replicate (2 ^ 31 + 5) 0) 1 = None
   \<and> take_ends (map sint (replicate (2 ^ 31 + 5) (0 :: int32))) (nat (sint (1 :: int32))) = 0"
proof -
  have short: "1 \<le> sint (2 :: int32) \<and> sint (2 :: int32) \<le> int (length [2147483647, 1 :: int32])
   \<and> map_option sint (maxScore [2147483647, 1] 2) = Some (- 2147483648)
   \<and> take_ends (map sint [2147483647, 1 :: int32]) (nat (sint (2 :: int32))) = 2147483648
   \<and> 1 \<le> sint (1 :: int32) \<and> sint (1 :: int32) \<le> int (length [2147483647, 1, 0 :: int32])
   \<and> map_option sint (maxScore [2147483647, 1, 0] 1) = Some 0
   \<and> take_ends (map sint [2147483647, 1, 0 :: int32]) (nat (sint (1 :: int32))) = 2147483647"
    using maxScore_overflow_run maxScore_block_overflow_run by (simp add: eval_nat_numeral)
  have z: "sint (0 :: int32) = 0" by simp
  have long: "sint (1 :: int32) \<le> int (length (replicate (2 ^ 31 + 5) (0 :: int32)))
   \<and> maxScore (replicate (2 ^ 31 + 5) 0) 1 = None
   \<and> take_ends (map sint (replicate (2 ^ 31 + 5) (0 :: int32))) (nat (sint (1 :: int32))) = 0"
    by (intro conjI one_le_length_replicate [OF long_nonzero] maxScore_long_run
        trans [OF take_ends_replicate_one [OF long_nonzero] z])
  from short long show ?thesis by (elim conjE) (intro conjI)
qed

text \<open>
  Claim C2, amended: for every sequence \<open>cardPoints\<close> of \<open>int\<close> values and every
  \<open>k\<close> with \<open>1 \<le> k \<le> n\<close>, the largest total of \<open>k\<close> cards taken from the two ends
  is the sum of all cards minus the least sum of a block of \<open>n - k\<close> consecutive
  cards; whenever in addition the sequence has fewer than \<open>2 ^ 31\<close> elements and the
  exact sum of every block of \<open>n - k\<close> consecutive cards and the largest total itself
  are values of an \<open>int\<close>, \<open>maxScore\<close> returns that largest total; and
  \<open>maxScore [1,79,80,1,1,1,200,1] 3\<close> is 202.
\<close>

theorem maxScore_is_best_total_from_ends:
  assumes "1 \<le> sint k" and "sint k \<le> int (length cardPoints)"
  shows "take_ends (map sint cardPoints) (nat (sint k))
      = isum cardPoints
        - Min {isum (window cardPoints (length cardPoints - nat (sint k)) j) | j. j \<le> nat (sint k)}
    \<and> (int (length cardPoints) < 2 ^ 31
       \<and> (\<forall>w \<in> set (windows cardPoints (length cardPoints - nat (sint k))). in_int_range (isum w))
       \<and> in_int_range (take_ends (map sint cardPoints) (nat (sint k)))
       \<longrightarrow> map_option sint (maxScore cardPoints k)
            = Some (take_ends (map sint cardPoints) (nat (sint k))))
    \<and> maxScore [1, 79, 80, 1, 1, 1, 200, 1] 3 = Some 202"
proof (intro conjI impI)
  have K: "nat (sint k) \<le> length cardPoints" using assms(2) by linarith
  show "take_ends (map sint cardPoints) (nat (sint k))
      = isum cardPoints
        - Min {isum (window cardPoints (length cardPoints - nat (sint k)) j) | j. j \<le> nat (sint k)}"
    by (rule take_ends_complement_isum [OF K])
next
  assume h: "int (length cardPoints) < 2 ^ 31
       \<and> (\<forall>w \<in> set (windows cardPoints (length cardPoints - nat (sint k))). in_int_range (isum w))
       \<and> in_int_range (take_ends (map sint cardPoints) (nat (sint k)))"
  have k0: "0 \<le> sint k" using assms(1) by linarith
  show "map_option sint (maxScore cardPoints k)
      = Some (take_ends (map sint cardPoints) (nat (sint k)))"
    by (rule maxScore_exact_bounded [OF k0 assms(2) h [THEN conjunct1]
          h [THEN conjunct2, THEN conjunct1] h [THEN conjunct2, THEN conjunct2]])
next
  show "maxScore [1, 79, 80, 1, 1, 1, 200, 1] 3 = Some 202" by (rule maxScore_example)
qed

theorem maxScore_is_best_total_from_ends_witness:
  "1 \<le> sint (3 :: int32) \<and> sint (3 :: int32) \<le> int (length [1, 2, 3, 4, 5, 6, 1 :: int32])
   \<and> int (length [1, 2, 3, 4, 5, 6, 1 :: int32]) < 2 ^ 31
   \<and> list_all in_int_range
        (map isum (windows [1, 2, 3, 4, 5, 6, 1 :: int32]
           (length [1, 2, 3, 4, 5, 6, 1 :: int32] - nat (sint (3 :: int32)))))
   \<and> take_ends (map sint [1, 2, 3, 4, 5, 6, 1 :: int32]) (nat (sint (3 :: int32))) = 12
   \<and> in_int_range 12
   \<and> map_option sint (maxScore [1, 2, 3, 4, 5, 6, 1] 3) = Some 12
   \<and> isum [1, 2, 3, 4, 5, 6, 1]
      - Min {isum (window [1, 2, 3, 4, 5, 6, 1 :: int32]
               (length [1, 2, 3, 4, 5, 6, 1 :: int32] - nat (sint (3 :: int32))) j) | j.
             j \<le> nat (sint (3 :: int32))} = 12"
proof -
  have h1: "1 \<le> sint (3 :: int32)" by simp
  have h2: "sint (3 :: int32) \<le> int (length [1, 2, 3, 4, 5, 6, 1 :: int32])" by simp
  have hl: "int (length [1, 2, 3, 4, 5, 6, 1 :: int32]) < 2 ^ 31" by simp
  have h3l: "list_all in_int_range
        (map isum (windows [1, 2, 3, 4, 5, 6, 1 :: int32]
           (length [1, 2, 3, 4, 5, 6, 1 :: int32] - nat (sint (3 :: int32)))))"
    by (simp add: windows_def window_def isum_def in_int_range_def upt_rec)
  then have h3: "\<forall>w \<in> set (windows [1, 2, 3, 4, 5, 6, 1 :: int32]
      (length [1, 2, 3, 4, 5, 6, 1 :: int32] - nat (sint (3 :: int32)))). in_int_range (isum w)"
    by (simp add: list_all_iff)
  have te: "take_ends (map sint [1, 2, 3, 4, 5, 6, 1 :: int32]) (nat (sint (3 :: int32))) = 12"
    by (simp add: eval_nat_numeral)
  have r: "in_int_range 12" by (simp add: in_int_range_def)
  then have h4: "in_int_range (take_ends (map sint [1, 2, 3, 4, 5, 6, 1 :: int32]) (nat (sint (3 :: int32))))"
    by (simp only: te)
  note b = maxScore_is_best_total_from_ends [OF h1 h2]
  have run: "map_option sint (maxScore [1, 2, 3, 4, 5, 6, 1] 3) = Some 12"
    using b [THEN conjunct2, THEN conjunct1, THEN mp, OF conjI [OF hl conjI [OF h3 h4]]]
    by (simp only: te)
  have ident: "isum [1, 2, 3, 4, 5, 6, 1]
      - Min {isum (window [1, 2, 3, 4, 5, 6, 1 :: int32]
               (length [1, 2, 3, 4, 5, 6, 1 :: int32] - nat (sint (3 :: int32))) j) | j.
             j \<le> nat (sint (3 :: int32))} = 12"
    using b [THEN conjunct1] by (simp only: te)
  from h1 h2 hl h3l te r run ident show ?thesis by (intro conjI)
qed

subsection \<open>C3: maximumSubarraySum\<close>

lemma maximumSubarraySum_example_1: "maximumSubarraySum [1, 5, 4, 2, 9, 9, 9] 3 = Some 15"
  by (simp add: maximumSubarraySum_def maximumSubarraySum_loop.simps index_at_def lt_size_def Let_def
      smax_def cnt_incr_def cnt_decr_erase_def cnt_size_def)

lemma maximumSubarraySum_example_2: "maximumSubarraySum [4, 4, 4] 3 = Some 0"
  by (simp add: maximumSubarraySum_def maximumSubarraySum_loop.simps index_at_def lt_size_def Let_def
      smax_def cnt_incr_def cnt_decr_erase_def cnt_size_def)

text \<open>
  Claim C3, as the spec states it: for every integer sequence \<open>nums\<close> and every \<open>k\<close>
  with \<open>1 \<le> k \<le> n\<close>, \<open>maximumSubarraySum\<close> returns the maximum sum of a window of
  length \<open>k\<close> with pairwise distinct elements, and 0 if there is no such window. The
  accumulator \<open>ans\<close> starts at 0: on \<open>[-1]\<close> with \<open>k = 1\<close> the only window is distinct
  and has sum \<open>-1\<close>, and the function returns 0. The index \<open>i\<close> is an \<open>int\<close>: on
  \<open>2 ^ 31\<close> elements 0 followed by one 5, with \<open>k = 1\<close>, the loop ends when \<open>i++\<close>
  leaves the range of \<open>int\<close>, before the last element is read, and the function
  returns 0, where the last window is distinct and has sum 5.
\<close>

theorem maximumSubarraySum_negative_counterexample:
  "1 \<le> sint (1 :: int32) \<and> sint (1 :: int32) \<le> int (length [- 1 :: int32])
   \<and> maximumSubarraySum [- 1] 1 = Some 0
   \<and> max_distinct_window_sum [- 1] (nat (sint (1 :: int32))) = - 1
   \<and> sint (1 :: int32) \<le> int (length (replicate (2 ^ 31) (0 :: int32) @ [5]))
   \<and> map_option sint (maximumSubarraySum (replicate (2 ^ 31) 0 @ [5]) 1) = Some 0
   \<and> max_distinct_window_sum (replicate (2 ^ 31) 0 @ [5]) (nat (sint (1 :: int32))) = 5"
proof -
  have z: "sint (0 :: int32) \<le> 0" by simp
  have le: "sint (0 :: int32) \<le> sint (5 :: int32)" by simp
  have five: "sint (5 :: int32) = 5" by simp
  have long: "sint (1 :: int32) \<le> int (length (replicate (2 ^ 31) (0 :: int32) @ [5]))
   \<and> map_option sint (maximumSubarraySum (replicate (2 ^ 31) 0 @ [5]) 1) = Some 0
   \<and> max_distinct_window_sum (replicate (2 ^ 31) 0 @ [5]) (nat (sint (1 :: int32))) = 5"
    by (intro conjI one_le_length_append maximumSubarraySum_long_run [OF z]
        trans [OF max_distinct_window_sum_long [OF le] five])
  have run: "maximumSubarraySum [- 1] 1 = Some 0"
    by (simp add: maximumSubarraySum_def maximumSubarraySum_loop.simps index_at_def lt_size_def Let_def
        smax_def cnt_incr_def cnt_decr_erase_def cnt_size_def)
  have "distinct_window_sums [- 1] 1 = {- 1}"
    by (simp add: distinct_window_sums_code windows_def window_def isum_def)
  then have "max_distinct_window_sum [- 1] 1 = - 1"
    by (simp add: max_distinct_window_sum_def)
  with run have short: "1 \<le> sint (1 :: int32) \<and> sint (1 :: int32) \<le> int (length [- 1 :: int32])
   \<and> maximumSubarraySum [- 1] 1 = Some 0
   \<and> max_distinct_window_sum [- 1] (nat (sint (1 :: int32))) = - 1" by simp
  from short long show ?thesis by (elim conjE) (intro conjI)
qed

text \<open>
  Claim C3, amended: for every sequence \<open>nums\<close> of fewer than \<open>2 ^ 31\<close> \<open>int\<close>
  values and every \<open>k\<close> with \<open>1 \<le> k \<le> n\<close>, \<open>maximumSubarraySum\<close> returns the larger of 0 and the maximum sum
  of a window of length \<open>k\<close> with pairwise distinct elements, and 0 if there is no such
  window; \<open>maximumSubarraySum [1,5,4,2,9,9,9] 3\<close> is 15 and
  \<open>maximumSubarraySum [4,4,4] 3\<close> is 0.
\<close>

theorem maximumSubarraySum_is_max_distinct_window_sum_or_0:
  assumes "1 \<le> sint k" and "sint k \<le> int (length nums)" and "int (length nums) < 2 ^ 31"
  shows "map_option sint (maximumSubarraySum nums k)
      = Some (max 0 (max_distinct_window_sum nums (nat (sint k))))
    \<and> maximumSubarraySum [1, 5, 4, 2, 9, 9, 9] 3 = Some 15
    \<and> maximumSubarraySum [4, 4, 4] 3 = Some 0"
  using maximumSubarraySum_exact_bounded [OF assms] maximumSubarraySum_example_1
    maximumSubarraySum_example_2
  by (intro conjI)

theorem maximumSubarraySum_is_max_distinct_window_sum_or_0_witness:
  "1 \<le> sint (2 :: int32) \<and> sint (2 :: int32) \<le> int (length [3, 3, 7, 1 :: int32])
   \<and> int (length [3, 3, 7, 1 :: int32]) < 2 ^ 31
   \<and> max_distinct_window_sum [3, 3, 7, 1] (nat (sint (2 :: int32))) = 10
   \<and> map_option sint (maximumSubarraySum [3, 3, 7, 1] 2) = Some 10"
proof -
  have h1: "1 \<le> sint (2 :: int32)" by simp
  have h2: "sint (2 :: int32) \<le> int (length [3, 3, 7, 1 :: int32])" by simp
  have hl: "int (length [3, 3, 7, 1 :: int32]) < 2 ^ 31" by simp
  have "distinct_window_sums [3, 3, 7, 1] 2 = {10, 8}"
    by (simp add: distinct_window_sums_code windows_def window_def isum_def upt_rec)
  then have m: "max_distinct_window_sum [3, 3, 7, 1] (nat (sint (2 :: int32))) = 10"
    by (simp add: max_distinct_window_sum_def)
  from maximumSubarraySum_is_max_distinct_window_sum_or_0 [OF h1 h2 hl] h1 h2 hl m
  show ?thesis by (simp only: simp_thms max.absorb2)
qed

subsection \<open>C10: maximumSubarraySum is never negative\<close>

lemma sint_eq_0_int64: "sint (r :: int64) = 0 \<Longrightarrow> r = 0"
  by (simp add: signed_eq_0_iff)

text \<open>
  Claim C10. For every sequence \<open>nums\<close>, of whatever length, and every \<open>k\<close> with
  \<open>1 \<le> k \<le> n\<close>,
  \<open>maximumSubarraySum nums k\<close> returns a value that is at least 0; it is 0 whenever
  every window of length \<open>k\<close> with pairwise distinct elements has a negative sum, which
  includes the case that no such window exists.
\<close>

theorem maximumSubarraySum_nonnegative:
  assumes "1 \<le> sint k" and "sint k \<le> int (length nums)"
  shows "\<exists>r. maximumSubarraySum nums k = Some r \<and> 0 \<le> sint r
    \<and> ((\<forall>s \<in> distinct_window_sums nums (nat (sint k)). s < 0) \<longrightarrow> r = 0)"
proof -
  obtain r S where run: "maximumSubarraySum nums k = Some r"
    and r: "sint r = Max (insert 0 S)"
    and S: "S \<subseteq> distinct_window_sums nums (nat (sint k))"
    using maximumSubarraySum_result_any_length [OF assms] by blast
  have "finite S" using S finite_distinct_window_sums by (rule finite_subset)
  then have fin: "finite (insert 0 S)" by simp
  have "0 \<le> Max (insert 0 S)" by (rule Max_ge [OF fin]) simp
  then have nonneg: "0 \<le> sint r" using r by simp
  have "r = 0" if neg: "\<forall>s \<in> distinct_window_sums nums (nat (sint k)). s < 0"
  proof -
    have "\<forall>s \<in> S. s < 0" using neg S by blast
    then have "Max (insert 0 S) \<le> 0"
      using fin by (subst Max_le_iff) auto
    with nonneg r have "sint r = 0" by linarith
    then show ?thesis by (rule sint_eq_0_int64)
  qed
  with run nonneg show ?thesis by blast
qed

theorem maximumSubarraySum_nonnegative_witness:
  "1 \<le> sint (2 :: int32) \<and> sint (2 :: int32) \<le> int (length [- 3, - 1, - 2 :: int32])
   \<and> distinct_window_sums [- 3, - 1, - 2] (nat (sint (2 :: int32))) = {- 4, - 3}
   \<and> maximumSubarraySum [- 3, - 1, - 2] 2 = Some 0"
proof -
  have h1: "1 \<le> sint (2 :: int32)" by simp
  have h2: "sint (2 :: int32) \<le> int (length [- 3, - 1, - 2 :: int32])" by simp
  have S: "distinct_window_sums [- 3, - 1, - 2] (nat (sint (2 :: int32))) = {- 4, - 3}"
    by (simp add: distinct_window_sums_code windows_def window_def isum_def upt_rec)
  have neg: "\<forall>s \<in> distinct_window_sums [- 3, - 1, - 2] (nat (sint (2 :: int32))). s < 0"
    unfolding S by simp
  from maximumSubarraySum_nonnegative [OF h1 h2] neg
  have "maximumSubarraySum [- 3, - 1, - 2] 2 = Some 0" by blast
  with h1 h2 S show ?thesis by blast
qed

subsection \<open>C7: findMaxAverage\<close>

lemma findMaxAverage_example:
  "findMaxAverage exact_div [1, 12, - 5, - 6, 50, 3] 4 = Some 12.75"
  by (simp add: findMaxAverage_def findMaxAverage_loop.simps index_at_def lt_size_def Let_def smax_def
      INT_MIN_def exact_div_def)

lemma findMaxAverage_overflow_run:
  "findMaxAverage exact_div [2147483647, 1] 2 = Some (- 1073741824)"
  by (simp add: findMaxAverage_def findMaxAverage_loop.simps index_at_def lt_size_def Let_def smax_def
      INT_MIN_def exact_div_def)

text \<open>
  Claim C7, as the spec states it: for every integer sequence \<open>nums\<close> and every \<open>k\<close>
  with \<open>1 \<le> k \<le> n\<close>, \<open>findMaxAverage\<close> returns the maximum window sum, an exact
  integer, divided by \<open>k\<close> in floating point. The window sum \<open>s\<close> is an \<open>int\<close>: on
  \<open>[2147483647, 1]\<close> with \<open>k = 2\<close> it wraps to \<open>- 2147483648\<close>, and the function
  returns \<open>- 1073741824\<close>, where the one window has the exact sum 2147483648 and the
  mean 1073741824 (both quotients are values of a \<open>double\<close>, so no rounding takes part).
  The index \<open>i\<close> is an \<open>int\<close>: on \<open>2 ^ 31\<close> elements 0 followed by one 1, with
  \<open>k = 1\<close>, the loop ends when \<open>i++\<close> leaves the range of \<open>int\<close>, before the last
  element is read, and the function returns 0, where the maximum window sum is 1.
\<close>

theorem findMaxAverage_overflow_counterexample:
  "1 \<le> sint (2 :: int32) \<and> sint (2 :: int32) \<le> int (length [2147483647, 1 :: int32])
   \<and> findMaxAverage exact_div [2147483647, 1] 2 = Some (- 1073741824)
   \<and> exact_div (Max {isum (window [2147483647, 1 :: int32] (nat (sint (2 :: int32))) j) | j.
          j + nat (sint (2 :: int32)) \<le> length [2147483647, 1 :: int32]}) (sint (2 :: int32))
      = 1073741824
   \<and> sint (1 :: int32) \<le> int (length (replicate (2 ^ 31) (0 :: int32) @ [1]))
   \<and> findMaxAverage exact_div (replicate (2 ^ 31) 0 @ [1]) 1 = Some 0
   \<and> Max {isum (window (replicate (2 ^ 31) (0 :: int32) @ [1]) (nat (sint (1 :: int32))) j) | j.
          j + nat (sint (1 :: int32)) \<le> length (replicate (2 ^ 31) (0 :: int32) @ [1])} = 1"
proof -
  have le: "sint (0 :: int32) \<le> sint (1 :: int32)" by simp
  have one: "sint (1 :: int32) = 1" by simp
  have q: "exact_div (sint (0 :: int32)) 1 = 0" by (simp add: exact_div_def)
  have long: "sint (1 :: int32) \<le> int (length (replicate (2 ^ 31) (0 :: int32) @ [1]))
   \<and> findMaxAverage exact_div (replicate (2 ^ 31) 0 @ [1]) 1 = Some 0
   \<and> Max {isum (window (replicate (2 ^ 31) (0 :: int32) @ [1]) (nat (sint (1 :: int32))) j) | j.
          j + nat (sint (1 :: int32)) \<le> length (replicate (2 ^ 31) (0 :: int32) @ [1])} = 1"
    by (intro conjI one_le_length_append
        findMaxAverage_long_run [of exact_div 0 "[1]", unfolded q]
        trans [OF max_window_sum_long [OF le] one])
  have "{isum (window [2147483647, 1 :: int32] (nat (sint (2 :: int32))) j) | j.
          j + nat (sint (2 :: int32)) \<le> length [2147483647, 1 :: int32]} = {2147483648}"
    by (auto simp: window_def isum_def)
  then have short: "1 \<le> sint (2 :: int32) \<and> sint (2 :: int32) \<le> int (length [2147483647, 1 :: int32])
   \<and> findMaxAverage exact_div [2147483647, 1] 2 = Some (- 1073741824)
   \<and> exact_div (Max {isum (window [2147483647, 1 :: int32] (nat (sint (2 :: int32))) j) | j.
          j + nat (sint (2 :: int32)) \<le> length [2147483647, 1 :: int32]}) (sint (2 :: int32))
      = 1073741824"
    using findMaxAverage_overflow_run by (simp add: exact_div_def)
  from short long show ?thesis by (elim conjE) (intro conjI)
qed

text \<open>
  Claim C7, amended: whenever \<open>nums\<close> has fewer than \<open>2 ^ 31\<close> elements and the
  exact sum of every window of length \<open>k\<close> is a value of an \<open>int\<close>,
  \<open>findMaxAverage\<close> returns the floating-point quotient of the maximum
  window sum and \<open>k\<close>, for whatever the floating-point division \<open>fdiv\<close> is; without
  rounding, that quotient is the maximum of the windows' means; and on
  \<open>[1,12,-5,-6,50,3]\<close> with \<open>k = 4\<close> the quotient is that of 51 and 4, which is 12.75.
\<close>

theorem findMaxAverage_is_max_window_sum_over_k:
  assumes "1 \<le> sint k" and "sint k \<le> int (length nums)" and "int (length nums) < 2 ^ 31"
    and "\<forall>w \<in> set (windows nums (nat (sint k))). in_int_range (isum w)"
  shows "findMaxAverage fdiv nums k =
      Some (fdiv (Max {isum (window nums (nat (sint k)) j) | j. j + nat (sint k) \<le> length nums})
              (sint k))
    \<and> exact_div (Max {isum (window nums (nat (sint k)) j) | j. j + nat (sint k) \<le> length nums})
        (sint k)
      = Max {exact_div (isum (window nums (nat (sint k)) j)) (sint k) | j.
              j + nat (sint k) \<le> length nums}
    \<and> findMaxAverage fdiv [1, 12, - 5, - 6, 50, 3] 4 = Some (fdiv 51 4)
    \<and> findMaxAverage exact_div [1, 12, - 5, - 6, 50, 3] 4 = Some 12.75"
proof -
  have kpos: "0 < sint k" using assms(1) by linarith
  have K: "nat (sint k) \<le> length nums" using assms(2) by linarith
  have generic: "findMaxAverage fdiv [1, 12, - 5, - 6, 50, 3] 4 = Some (fdiv 51 4)"
    by (simp add: findMaxAverage_def findMaxAverage_loop.simps index_at_def lt_size_def Let_def smax_def
        INT_MIN_def)
  show ?thesis
    using findMaxAverage_exact_bounded [OF assms, of fdiv] max_mean_is_mean_of_max [OF kpos K, symmetric]
      generic findMaxAverage_example
    by (intro conjI)
qed

theorem findMaxAverage_is_max_window_sum_over_k_witness:
  "1 \<le> sint (2 :: int32) \<and> sint (2 :: int32) \<le> int (length [5, - 9, 4 :: int32])
   \<and> int (length [5, - 9, 4 :: int32]) < 2 ^ 31
   \<and> list_all in_int_range (map isum (windows [5, - 9, 4 :: int32] (nat (sint (2 :: int32)))))
   \<and> Max {isum (window [5, - 9, 4 :: int32] (nat (sint (2 :: int32))) j) | j.
          j + nat (sint (2 :: int32)) \<le> length [5, - 9, 4 :: int32]} = - 4
   \<and> findMaxAverage exact_div [5, - 9, 4] 2 = Some (- 2)"
proof -
  have h1: "1 \<le> sint (2 :: int32)" by simp
  have h2: "sint (2 :: int32) \<le> int (length [5, - 9, 4 :: int32])" by simp
  have hl: "int (length [5, - 9, 4 :: int32]) < 2 ^ 31" by simp
  have h3l: "list_all in_int_range (map isum (windows [5, - 9, 4 :: int32] (nat (sint (2 :: int32)))))"
    by (simp add: windows_def window_def isum_def in_int_range_def upt_rec)
  then have h3: "\<forall>w \<in> set (windows [5, - 9, 4 :: int32] (nat (sint (2 :: int32)))). in_int_range (isum w)"
    by (simp add: list_all_iff)
  have "{isum (window [5, - 9, 4 :: int32] (nat (sint (2 :: int32))) j) | j.
          j + nat (sint (2 :: int32)) \<le> length [5, - 9, 4 :: int32]}
      = set (map isum (windows [5, - 9, 4 :: int32] (nat (sint (2 :: int32)))))"
    by (simp add: set_windows) blast
  also have "\<dots> = {- 4, - 5}"
    by (simp add: windows_def window_def isum_def upt_rec)
  finally have mx: "Max {isum (window [5, - 9, 4 :: int32] (nat (sint (2 :: int32))) j) | j.
          j + nat (sint (2 :: int32)) \<le> length [5, - 9, 4 :: int32]} = - 4"
    by simp
  have "findMaxAverage exact_div [5, - 9, 4] 2 = Some (exact_div (- 4) (sint (2 :: int32)))"
    using findMaxAverage_is_max_window_sum_over_k [OF h1 h2 hl h3, of exact_div]
    by (simp only: mx)
  then have "findMaxAverage exact_div [5, - 9, 4] 2 = Some (- 2)"
    by (simp add: exact_div_def)
  with h1 h2 hl h3l mx show ?thesis by (simp only: simp_thms)
qed

subsection \<open>C9: every element access is in bounds\<close>

lemma minimumRecolors_out_of_bounds: "minimumRecolors ''WB'' 4 = None"
  by (simp add: minimumRecolors_def minimumRecolors_first.simps index_at_def size_as_int_def)

lemma maxScore_out_of_bounds: "maxScore [1, 2] 3 = None"
  by (simp add: maxScore_def reduce_def size_as_int_def Let_def)




subsection \<open>C1: the functions against the brute-force definitions\<close>

text \<open>
  Claim C1, as the spec states it: for every valid input each sliding-window function
  returns what the brute-force definition returns; for \<open>maximumSubarraySum\<close> that is
  the maximum sum over the windows with pairwise distinct elements, 0 if there is none.
  On \<open>[-2, -3]\<close> with \<open>k = 2\<close> the one window is distinct and has sum \<open>-5\<close>; the
  function returns 0. And the loop index is an \<open>int\<close>: on \<open>2 ^ 31\<close> characters \<open>b\<close>
  followed by one \<open>a\<close>, with \<open>k = 1\<close>, \<open>maxVowels\<close> stops when \<open>i++\<close> leaves the
  range of \<open>int\<close> and returns 0, where the brute-force maximum is 1.
\<close>

theorem brute_force_counterexample:
  "1 \<le> sint (2 :: int32) \<and> sint (2 :: int32) \<le> int (length [- 2, - 3 :: int32])
   \<and> maximumSubarraySum [- 2, - 3] 2 = Some 0
   \<and> bf_maximumSubarraySum [- 2, - 3] (nat (sint (2 :: int32))) = - 5
   \<and> 1 \<le> sint (1 :: int32)
   \<and> sint (1 :: int32) \<le> int (length (replicate (2 ^ 31) (CHR ''b'') @ ''a''))
   \<and> maxVowels (replicate (2 ^ 31) (CHR ''b'') @ ''a'') 1 = Some 0
   \<and> bf_maxVowels (replicate (2 ^ 31) (CHR ''b'') @ ''a'') (nat (sint (1 :: int32))) = 1"
proof -
  have v: "is_vowel (CHR ''a'')" by (simp add: is_vowel_def)
  have nv: "\<not> is_vowel (CHR ''b'')" by (simp add: is_vowel_def)
  have long: "1 \<le> sint (1 :: int32)
   \<and> sint (1 :: int32) \<le> int (length (replicate (2 ^ 31) (CHR ''b'') @ ''a''))
   \<and> maxVowels (replicate (2 ^ 31) (CHR ''b'') @ ''a'') 1 = Some 0
   \<and> bf_maxVowels (replicate (2 ^ 31) (CHR ''b'') @ ''a'') (nat (sint (1 :: int32))) = 1"
    by (intro conjI one_le_one one_le_length_append maxVowels_long_run [OF nv]
        bf_maxVowels_long [OF v])
  have run: "maximumSubarraySum [- 2, - 3] 2 = Some 0"
    by (simp add: maximumSubarraySum_def maximumSubarraySum_loop.simps index_at_def lt_size_def Let_def
        smax_def cnt_incr_def cnt_decr_erase_def cnt_size_def)
  have "bf_maximumSubarraySum [- 2, - 3] 2 = - 5"
    by (simp add: bf_maximumSubarraySum_def windows_def window_def isum_def)
  with run have short: "1 \<le> sint (2 :: int32) \<and> sint (2 :: int32) \<le> int (length [- 2, - 3 :: int32])
   \<and> maximumSubarraySum [- 2, - 3] 2 = Some 0
   \<and> bf_maximumSubarraySum [- 2, - 3] (nat (sint (2 :: int32))) = - 5" by simp
  from short long show ?thesis by (elim conjE) (intro conjI)
qed

text \<open>
  Claim C1, amended: for every valid input (\<open>1 \<le> k \<le> n\<close>) of fewer than
  \<open>2 ^ 31\<close> elements, \<open>maxVowels\<close> returns
  the maximum over all windows of the window's vowel count, each count recomputed from
  the window alone (the early \<open>break\<close> changes nothing); \<open>numOfSubarrays\<close> returns the
  number of windows whose sum, recomputed from the window alone in \<open>int\<close>, is at least
  the \<open>int\<close> product \<open>k * threshold\<close>; and \<open>maximumSubarraySum\<close> returns the larger of
  0 and the brute-force value, which is the maximum exact sum over the windows with
  pairwise distinct elements and 0 if there is none.
\<close>

theorem functions_equal_brute_force:
  assumes "1 \<le> sint k"
  shows "(sint k \<le> int (length str) \<and> int (length str) < 2 ^ 31 \<longrightarrow>
            maxVowels str k = Some (bf_maxVowels str (nat (sint k))))
       \<and> (sint k \<le> int (length xs) \<and> int (length xs) < 2 ^ 31 \<longrightarrow>
            map_option sint (maximumSubarraySum xs k)
              = Some (max 0 (bf_maximumSubarraySum xs (nat (sint k))))
          \<and> map_option sint (numOfSubarrays xs k threshold)
              = Some (bf_numOfSubarrays xs k threshold))"
proof (intro conjI impI)
  assume "sint k \<le> int (length str) \<and> int (length str) < 2 ^ 31"
  then have n: "sint k \<le> int (length str)" and l: "int (length str) < 2 ^ 31" by simp_all
  from n have K: "nat (sint k) \<le> length str" by linarith
  show "maxVowels str k = Some (bf_maxVowels str (nat (sint k)))"
    using maxVowels_result_bounded [OF assms n l] by (simp only: bf_maxVowels_eq [OF K])
next
  assume "sint k \<le> int (length xs) \<and> int (length xs) < 2 ^ 31"
  then have n: "sint k \<le> int (length xs)" and l: "int (length xs) < 2 ^ 31" by simp_all
  from n have K: "nat (sint k) \<le> length xs" by linarith
  show "map_option sint (maximumSubarraySum xs k)
      = Some (max 0 (bf_maximumSubarraySum xs (nat (sint k))))"
    using maximumSubarraySum_exact_bounded [OF assms n l]
    by (simp only: bf_maximumSubarraySum_eq [OF K])
  show "map_option sint (numOfSubarrays xs k threshold)
      = Some (bf_numOfSubarrays xs k threshold)"
    using numOfSubarrays_machine_bounded [OF assms n l, of threshold]
    by (simp only: bf_numOfSubarrays_def)
qed

theorem functions_equal_brute_force_witness:
  "1 \<le> sint (3 :: int32) \<and> sint (3 :: int32) \<le> int (length ''abciiidef'')
   \<and> int (length ''abciiidef'') < 2 ^ 31
   \<and> sint (3 :: int32) \<le> int (length [1, 5, 4, 2, 9, 9, 9 :: int32])
   \<and> int (length [1, 5, 4, 2, 9, 9, 9 :: int32]) < 2 ^ 31
   \<and> bf_maxVowels ''abciiidef'' (nat (sint (3 :: int32))) = 3
   \<and> maxVowels ''abciiidef'' 3 = Some 3
   \<and> bf_maximumSubarraySum [1, 5, 4, 2, 9, 9, 9] (nat (sint (3 :: int32))) = 15
   \<and> map_option sint (maximumSubarraySum [1, 5, 4, 2, 9, 9, 9] 3) = Some 15
   \<and> bf_numOfSubarrays [1, 5, 4, 2, 9, 9, 9] 3 4 = 3
   \<and> map_option sint (numOfSubarrays [1, 5, 4, 2, 9, 9, 9] 3 4) = Some 3"
proof -
  have h1: "1 \<le> sint (3 :: int32)" by simp
  have h2: "sint (3 :: int32) \<le> int (length ''abciiidef'')" by simp
  have l2: "int (length ''abciiidef'') < 2 ^ 31" by simp
  have h3: "sint (3 :: int32) \<le> int (length [1, 5, 4, 2, 9, 9, 9 :: int32])" by simp
  have l3: "int (length [1, 5, 4, 2, 9, 9, 9 :: int32]) < 2 ^ 31" by simp
  have b1: "bf_maxVowels ''abciiidef'' (nat (sint (3 :: int32))) = 3"
    by (simp add: bf_maxVowels_def windows_def window_def count_vowels_def is_vowel_def upt_rec)
  have b2: "bf_maximumSubarraySum [1, 5, 4, 2, 9, 9, 9] (nat (sint (3 :: int32))) = 15"
    by (simp add: bf_maximumSubarraySum_def windows_def window_def isum_def upt_rec)
  have b3: "bf_numOfSubarrays [1, 5, 4, 2, 9, 9, 9] 3 4 = 3"
    by (simp add: bf_numOfSubarrays_def windows_def window_def upt_rec)
  note b = functions_equal_brute_force [OF h1, of "''abciiidef''" "[1, 5, 4, 2, 9, 9, 9]" 4]
  note s = b [THEN conjunct1, THEN mp, OF conjI [OF h2 l2]]
  note x = b [THEN conjunct2, THEN mp, OF conjI [OF h3 l3]]
  from s x [THEN conjunct1] x [THEN conjunct2] h1 h2 l2 h3 l3 b1 b2 b3
  show ?thesis by (simp only: simp_thms max.absorb2)
qed

subsection \<open>C8: the boundary window sizes\<close>

text \<open>
  Claim C8, as the spec states it: for every non-empty sequence, every function called
  with \<open>k = n\<close> returns the aggregate of the whole sequence as the answer of the single
  window (\<open>maxScore\<close> the total of all cards, \<open>findMaxAverage\<close> the mean of the whole
  array), and called with \<open>k = 1\<close> the result of a scan over the elements. Two inputs
  with \<open>k = n\<close> refute it. On \<open>[2147483647, 1]\<close> the total 2147483648 is no \<open>int\<close>:
  \<open>maxScore\<close> returns \<open>- 2147483648\<close> and \<open>findMaxAverage\<close> returns
  \<open>- 1073741824\<close>, not the mean 1073741824. On \<open>[-7]\<close> the single window is
  distinct and has sum \<open>-7\<close>, and \<open>maximumSubarraySum\<close> returns 0. With \<open>k = 1\<close>,
  \<open>maxScore\<close> on \<open>[2147483647, 1, 0]\<close> returns 0, which is neither the larger of the
  first and the last card nor the largest card; and \<open>maxVowels\<close> on \<open>2 ^ 31\<close>
  characters \<open>b\<close> followed by one \<open>a\<close> returns 0, since its \<open>int\<close> index leaves the
  range of \<open>int\<close> before the vowel is read.
\<close>

theorem boundary_counterexample:
  "sint (2 :: int32) = int (length [2147483647, 1 :: int32])
   \<and> isum [2147483647, 1] = 2147483648
   \<and> maxScore [2147483647, 1] 2 = Some (- 2147483648)
   \<and> findMaxAverage exact_div [2147483647, 1] 2 = Some (- 1073741824)
   \<and> exact_div (isum [2147483647, 1]) (sint (2 :: int32)) = 1073741824
   \<and> sint (1 :: int32) = int (length [- 7 :: int32])
   \<and> distinct [- 7 :: int32] \<and> isum [- 7] = - 7
   \<and> maximumSubarraySum [- 7] 1 = Some 0
   \<and> maxScore [2147483647, 1, 0] 1 = Some 0
   \<and> max (sint (hd [2147483647, 1, 0 :: int32])) (sint (last [2147483647, 1, 0 :: int32]))
      = 2147483647
   \<and> maxVowels (replicate (2 ^ 31) (CHR ''b'') @ ''a'') 1 = Some 0
   \<and> CHR ''a'' \<in> set (replicate (2 ^ 31) (CHR ''b'') @ ''a'')
   \<and> is_vowel (CHR ''a'')"
proof -
  have v: "is_vowel (CHR ''a'')" by (simp add: is_vowel_def)
  have nv: "\<not> is_vowel (CHR ''b'')" by (simp add: is_vowel_def)
  have long: "maxVowels (replicate (2 ^ 31) (CHR ''b'') @ ''a'') 1 = Some 0
   \<and> CHR ''a'' \<in> set (replicate (2 ^ 31) (CHR ''b'') @ ''a'')
   \<and> is_vowel (CHR ''a'')"
    by (intro conjI maxVowels_long_run [OF nv] last_in_set v)
  have "maximumSubarraySum [- 7] 1 = Some 0"
    by (simp add: maximumSubarraySum_def maximumSubarraySum_loop.simps index_at_def lt_size_def
        Let_def smax_def cnt_incr_def cnt_decr_erase_def cnt_size_def)
  then have short: "sint (2 :: int32) = int (length [2147483647, 1 :: int32])
   \<and> isum [2147483647, 1] = 2147483648
   \<and> maxScore [2147483647, 1] 2 = Some (- 2147483648)
   \<and> findMaxAverage exact_div [2147483647, 1] 2 = Some (- 1073741824)
   \<and> exact_div (isum [2147483647, 1]) (sint (2 :: int32)) = 1073741824
   \<and> sint (1 :: int32) = int (length [- 7 :: int32])
   \<and> distinct [- 7 :: int32] \<and> isum [- 7] = - 7
   \<and> maximumSubarraySum [- 7] 1 = Some 0
   \<and> maxScore [2147483647, 1, 0] 1 = Some 0
   \<and> max (sint (hd [2147483647, 1, 0 :: int32])) (sint (last [2147483647, 1, 0 :: int32]))
      = 2147483647"
    using maxScore_overflow_run findMaxAverage_overflow_run maxScore_block_overflow_run
    by (simp add: isum_def exact_div_def)
  from short long show ?thesis by (elim conjE) (intro conjI)
qed

text \<open>
  Claim C8, amended. For every non-empty sequence and \<open>k = n\<close>: \<open>maxVowels\<close> returns
  the number of vowels of the whole string and \<open>minimumRecolors\<close> its number of
  \<open>W\<close>; \<open>numOfSubarrays\<close> returns 1 or 0 as the \<open>int\<close> total is at least the \<open>int\<close>
  product \<open>k * threshold\<close> or not; \<open>maxScore\<close> returns the \<open>int\<close> total of all cards
  and \<open>findMaxAverage\<close> the floating-point quotient of the \<open>int\<close> total and \<open>k\<close>,
  where the \<open>int\<close> total is the exact total whenever that is a value of an \<open>int\<close>;
  \<open>maximumSubarraySum\<close> returns the larger of 0 and the total when the elements are
  pairwise distinct, and 0 otherwise. For every non-empty sequence of fewer than
  \<open>2 ^ 31\<close> elements and \<open>k = 1\<close>:
  \<open>maxVowels\<close> returns 1 if some character is a vowel and 0 otherwise;
  \<open>minimumRecolors\<close> 1 if every character is \<open>W\<close> and 0 otherwise; \<open>numOfSubarrays\<close>
  the number of elements that are at least the threshold; \<open>findMaxAverage\<close> the
  floating-point quotient of the largest element and 1; \<open>maximumSubarraySum\<close> the larger
  of 0 and the largest element; \<open>maxScore\<close> the larger of the first and the last card,
  whenever the exact sums of all cards but the last and of all cards but the first are
  values of an \<open>int\<close>.
\<close>

theorem boundary_window_sizes:
  assumes "str \<noteq> []" and "xs \<noteq> []"
  shows "(sint k = int (length str) \<longrightarrow>
            maxVowels str k = Some (count_vowels str)
          \<and> minimumRecolors str k = Some (count_W str))
       \<and> (sint k = int (length xs) \<longrightarrow>
            map_option sint (numOfSubarrays xs k threshold)
              = Some (if sint (k * threshold) \<le> sint (sum_list xs) then 1 else 0)
          \<and> maxScore xs k = Some (sum_list xs)
          \<and> findMaxAverage fdiv xs k = Some (fdiv (sint (sum_list xs)) (sint k))
          \<and> map_option sint (maximumSubarraySum xs k)
              = Some (if distinct xs then max 0 (isum xs) else 0))
       \<and> (in_int_range (isum xs) \<longrightarrow> sint (sum_list xs) = isum xs)
       \<and> (int (length str) < 2 ^ 31 \<longrightarrow>
            maxVowels str 1 = Some (if \<exists>c\<in>set str. is_vowel c then 1 else 0)
          \<and> minimumRecolors str 1 = Some (if \<forall>c\<in>set str. c = CHR ''W'' then 1 else 0))
       \<and> (int (length xs) < 2 ^ 31 \<longrightarrow>
            map_option sint (numOfSubarrays xs 1 threshold)
              = Some (int (length (filter (\<lambda>x. sint threshold \<le> sint x) xs)))
          \<and> findMaxAverage fdiv xs 1 = Some (fdiv (Max (sint ` set xs)) 1)
          \<and> map_option sint (maximumSubarraySum xs 1) = Some (max 0 (Max (sint ` set xs)))
          \<and> (in_int_range (isum (butlast xs)) \<and> in_int_range (isum (tl xs)) \<longrightarrow>
               map_option sint (maxScore xs 1) = Some (max (sint (hd xs)) (sint (last xs)))))"
proof (intro conjI impI)
  assume n: "sint k = int (length str)"
  show "maxVowels str k = Some (count_vowels str)"
    by (rule maxVowels_whole_bounded [OF assms(1) n])
  show "minimumRecolors str k = Some (count_W str)"
    by (rule minimumRecolors_whole_bounded [OF assms(1) n])
next
  assume n: "sint k = int (length xs)"
  show "map_option sint (numOfSubarrays xs k threshold)
      = Some (if sint (k * threshold) \<le> sint (sum_list xs) then 1 else 0)"
    by (rule numOfSubarrays_whole_bounded [OF assms(2) n])
  show "maxScore xs k = Some (sum_list xs)"
    by (rule maxScore_whole_bounded [OF n])
  show "findMaxAverage fdiv xs k = Some (fdiv (sint (sum_list xs)) (sint k))"
    by (rule findMaxAverage_whole_bounded [OF assms(2) n])
  show "map_option sint (maximumSubarraySum xs k)
      = Some (if distinct xs then max 0 (isum xs) else 0)"
    by (rule maximumSubarraySum_whole_bounded [OF assms(2) n])
next
  assume "in_int_range (isum xs)"
  then show "sint (sum_list xs) = isum xs" by (rule sint_sum_list)
next
  assume l: "int (length str) < 2 ^ 31"
  show "maxVowels str 1 = Some (if \<exists>c\<in>set str. is_vowel c then 1 else 0)"
    by (rule maxVowels_single_bounded [OF assms(1) l])
  show "minimumRecolors str 1 = Some (if \<forall>c\<in>set str. c = CHR ''W'' then 1 else 0)"
    by (rule minimumRecolors_single_bounded [OF assms(1) l])
next
  assume l: "int (length xs) < 2 ^ 31"
  show "map_option sint (numOfSubarrays xs 1 threshold)
      = Some (int (length (filter (\<lambda>x. sint threshold \<le> sint x) xs)))"
    by (rule numOfSubarrays_single_bounded [OF assms(2) l])
  show "findMaxAverage fdiv xs 1 = Some (fdiv (Max (sint ` set xs)) 1)"
    by (rule findMaxAverage_single_bounded [OF assms(2) l])
  show "map_option sint (maximumSubarraySum xs 1) = Some (max 0 (Max (sint ` set xs)))"
    by (rule maximumSubarraySum_single_bounded [OF assms(2) l])
  assume "in_int_range (isum (butlast xs)) \<and> in_int_range (isum (tl xs))"
  then show "map_option sint (maxScore xs 1) = Some (max (sint (hd xs)) (sint (last xs)))"
    using maxScore_single_bounded [OF assms(2) l] by blast
qed

theorem boundary_window_sizes_witness:
  "''WaW'' \<noteq> [] \<and> [3, 1, 2 :: int32] \<noteq> []
   \<and> sint (3 :: int32) = int (length ''WaW'')
   \<and> sint (3 :: int32) = int (length [3, 1, 2 :: int32])
   \<and> int (length ''WaW'') < 2 ^ 31 \<and> int (length [3, 1, 2 :: int32]) < 2 ^ 31
   \<and> in_int_range (isum [3, 1, 2])
   \<and> in_int_range (isum (butlast [3, 1, 2])) \<and> in_int_range (isum (tl [3, 1, 2]))
   \<and> maxVowels ''WaW'' 3 = Some 1 \<and> minimumRecolors ''WaW'' 3 = Some 2
   \<and> map_option sint (numOfSubarrays [3, 1, 2] 3 2) = Some 1
   \<and> maxScore [3, 1, 2] 3 = Some 6
   \<and> findMaxAverage exact_div [3, 1, 2] 3 = Some 2
   \<and> map_option sint (maximumSubarraySum [3, 1, 2] 3) = Some 6
   \<and> sint (sum_list [3, 1, 2 :: int32]) = isum [3, 1, 2]
   \<and> maxVowels ''WaW'' 1 = Some 1 \<and> minimumRecolors ''WaW'' 1 = Some 0
   \<and> map_option sint (numOfSubarrays [3, 1, 2] 1 2) = Some 2
   \<and> findMaxAverage exact_div [3, 1, 2] 1 = Some 3
   \<and> map_option sint (maximumSubarraySum [3, 1, 2] 1) = Some 3
   \<and> map_option sint (maxScore [3, 1, 2] 1) = Some 3"
proof -
  have h1: "''WaW'' \<noteq> []" by simp
  have h2: "[3, 1, 2 :: int32] \<noteq> []" by simp
  have h3: "sint (3 :: int32) = int (length ''WaW'')" by simp
  have h4: "sint (3 :: int32) = int (length [3, 1, 2 :: int32])" by simp
  have l1: "int (length ''WaW'') < 2 ^ 31" by simp
  have l2: "int (length [3, 1, 2 :: int32]) < 2 ^ 31" by simp
  have h5: "in_int_range (isum [3, 1, 2])" by (simp add: in_int_range_def isum_def)
  have h6: "in_int_range (isum (butlast [3, 1, 2])) \<and> in_int_range (isum (tl [3, 1, 2]))"
    by (simp add: in_int_range_def isum_def)
  note b = boundary_window_sizes [OF h1 h2, of 3 2 exact_div]
  note whole_str = b [THEN conjunct1, THEN mp, OF h3]
  note whole_xs = b [THEN conjunct2, THEN conjunct1, THEN mp, OF h4]
  note exact = b [THEN conjunct2, THEN conjunct2, THEN conjunct1, THEN mp, OF h5]
  note single_str = b [THEN conjunct2, THEN conjunct2, THEN conjunct2, THEN conjunct1,
    THEN mp, OF l1]
  note single_xs = b [THEN conjunct2, THEN conjunct2, THEN conjunct2, THEN conjunct2,
    THEN mp, OF l2]
  note v = whole_str [THEN conjunct1] whole_str [THEN conjunct2]
  note w = whole_xs [THEN conjunct1] whole_xs [THEN conjunct2, THEN conjunct1]
    whole_xs [THEN conjunct2, THEN conjunct2, THEN conjunct1]
    whole_xs [THEN conjunct2, THEN conjunct2, THEN conjunct2]
  note s = single_str [THEN conjunct1] single_str [THEN conjunct2]
    single_xs [THEN conjunct1] single_xs [THEN conjunct2, THEN conjunct1]
    single_xs [THEN conjunct2, THEN conjunct2, THEN conjunct1]
  note e = single_xs [THEN conjunct2, THEN conjunct2, THEN conjunct2, THEN mp, OF h6]
  have v1: "maxVowels ''WaW'' 3 = Some 1"
    using v(1) by (simp add: count_vowels_def is_vowel_def)
  have v2: "minimumRecolors ''WaW'' 3 = Some 2"
    using v(2) by (simp add: count_W_def)
  have w1: "map_option sint (numOfSubarrays [3, 1, 2] 3 2) = Some 1" using w(1) by simp
  have w2: "maxScore [3, 1, 2] 3 = Some 6" using w(2) by simp
  have w3: "findMaxAverage exact_div [3, 1, 2] 3 = Some 2"
    using w(3) by (simp add: exact_div_def)
  have w4: "map_option sint (maximumSubarraySum [3, 1, 2] 3) = Some 6"
    using w(4) by (simp add: isum_def)
  have s1: "maxVowels ''WaW'' 1 = Some 1" using s(1) by (simp add: is_vowel_def)
  have s2: "minimumRecolors ''WaW'' 1 = Some 0" using s(2) by simp
  have s3: "map_option sint (numOfSubarrays [3, 1, 2] 1 2) = Some 2" using s(3) by simp
  have s4: "findMaxAverage exact_div [3, 1, 2] 1 = Some 3"
    using s(4) by (simp add: exact_div_def)
  have s5: "map_option sint (maximumSubarraySum [3, 1, 2] 1) = Some 3" using s(5) by simp
  have e1: "map_option sint (maxScore [3, 1, 2] 1) = Some 3" using e by simp
  from h1 h2 h3 h4 l1 l2 h5 h6 [THEN conjunct1] h6 [THEN conjunct2]
    v1 v2 w1 w2 w3 w4 exact s1 s2 s3 s4 s5 e1
  show ?thesis by (intro conjI)
qed

end
